theory Spec2Isabelle
  imports Complex_Main "HOL-Library.Word"
begin

section \<open>Numbers, typed arrays and audio buffers\<close>

text \<open>
  The engine works on JavaScript numbers. A number is modelled by the real it denotes or by
  \<open>NaN\<close>. Reading a typed array outside its bounds yields \<open>undefined\<close>; every use the
  source makes of such a read (\<open>Math.abs\<close>, \<open>Math.min\<close>, \<open>Math.max\<close>, \<open><\<close>, \<open>>\<close>,
  a store into a \<open>Float32Array\<close>) treats \<open>undefined\<close> as it treats \<open>NaN\<close>, so the read
  is modelled as \<open>NaN\<close>. Times (positions, durations, the configured maximum) are finite
  and are plain reals. The sections up to the waveform summary compute on them over the
  reals; the section on binary64 arithmetic reads the slicer, batch slicing, the split
  finder and the frame prober with the rounding of every operation.
\<close>

datatype number = Num real | NaN

type_synonym byte = "8 word"

definition at_index :: "number list \<Rightarrow> int \<Rightarrow> number" where
  "at_index xs k = (if 0 \<le> k \<and> k < int (length xs) then xs ! nat k else NaN)"

text \<open>
  An \<open>AudioBuffer\<close>: its sample rate in Hz, its \<open>length\<close> in sample frames and one
  \<open>Float32Array\<close> per channel (\<open>getChannelData\<close>).
\<close>

record AudioBuffer =
  sampleRate :: nat
  buf_length :: nat
  channelData :: "number list list"

definition numberOfChannels :: "AudioBuffer \<Rightarrow> nat" where
  "numberOfChannels b = length (channelData b)"

text \<open>
  The errors a call can end with. \<open>InvalidRange\<close> is the error kind of the specification;
  \<open>NotSupportedError\<close> is raised by the host's \<open>createBuffer\<close>; \<open>TypeError\<close> is the
  failure of a property read on \<open>null\<close>.
\<close>

datatype error = InvalidRange | NotSupportedError | TypeError

section \<open>WAV serialisation (\<open>bufferToWav\<close>)\<close>

text \<open>
  \<open>DataView.setUint32\<close>, \<open>setUint16\<close> and \<open>setInt16\<close> with \<open>littleEndian = true\<close>:
  the value is reduced modulo \<open>2 ^ 32\<close> or \<open>2 ^ 16\<close> and stored low byte first. The
  source writes at \<open>pos\<close> and advances \<open>pos\<close> by the width written, from \<open>0\<close> up to the
  length of the buffer, so the bytes written are the concatenation of the writes.
\<close>

definition setUint32 :: "nat \<Rightarrow> byte list" where
  "setUint32 d =
     [word_of_nat (d mod 256), word_of_nat (d div 256 mod 256),
      word_of_nat (d div 65536 mod 256), word_of_nat (d div 16777216 mod 256)]"

definition setUint16 :: "nat \<Rightarrow> byte list" where
  "setUint16 d = [word_of_nat (d mod 256), word_of_nat (d div 256 mod 256)]"

definition setInt16 :: "int \<Rightarrow> byte list" where
  "setInt16 v = [word_of_int (v mod 256), word_of_int (v div 256 mod 256)]"

text \<open>\<open>x | 0\<close>: the number is truncated toward zero and wrapped into the signed 32-bit range;
  \<open>NaN | 0\<close> is \<open>0\<close>.\<close>

definition trunc :: "real \<Rightarrow> int" where
  "trunc x = (if x < 0 then \<lceil>x\<rceil> else \<lfloor>x\<rfloor>)"

definition toInt32 :: "real \<Rightarrow> int" where
  "toInt32 x = (trunc x + 2147483648) mod 4294967296 - 2147483648"

text \<open>\<open>Math.max(-1, Math.min(1, x))\<close>.\<close>

definition clampSample :: "number \<Rightarrow> number" where
  "clampSample x = (case x of NaN \<Rightarrow> NaN | Num r \<Rightarrow> Num (max (- 1) (min 1 r)))"

text \<open>\<open>(0.5 + sample < 0 ? sample * 32768 : sample * 32767) | 0\<close>. The comparison is
  \<open>(0.5 + sample) < 0\<close>, as the operator precedence of the source has it.\<close>

definition scaleSample :: "number \<Rightarrow> int" where
  "scaleSample x =
     (case x of NaN \<Rightarrow> 0
      | Num r \<Rightarrow> toInt32 (if 1 / 2 + r < 0 then r * 32768 else r * 32767))"

definition sampleToInt16 :: "number \<Rightarrow> int" where
  "sampleToInt16 x = scaleSample (clampSample x)"

text \<open>The inner \<open>for\<close> loop: one 16-bit value per channel for the frame \<open>offset\<close>.\<close>

definition frameBytes :: "number list list \<Rightarrow> nat \<Rightarrow> byte list" where
  "frameBytes chans offset =
     concat (map (\<lambda>c. setInt16 (sampleToInt16 (at_index c (int offset)))) chans)"

text \<open>
  The \<open>while (pos < length)\<close> loop. Each round writes \<open>2 * numOfChan\<close> bytes and the data
  area has \<open>abuffer.length * numOfChan * 2\<close> bytes, so with at least one channel the loop
  makes \<open>abuffer.length\<close> rounds, for the frames \<open>0, 1, ...\<close>; with no channel
  \<open>pos = length = 44\<close> after the header and the loop does not run, and each frame below is
  empty. \<open>dataBytes chans offset n\<close> is the output of \<open>n\<close> rounds starting at frame
  \<open>offset\<close>.
\<close>

primrec dataBytes :: "number list list \<Rightarrow> nat \<Rightarrow> nat \<Rightarrow> byte list" where
  "dataBytes chans offset 0 = []"
| "dataBytes chans offset (Suc n) = frameBytes chans offset @ dataBytes chans (Suc offset) n"

definition wavLength :: "AudioBuffer \<Rightarrow> nat" where
  "wavLength abuffer = buf_length abuffer * numberOfChannels abuffer * 2 + 44"

definition wavHeader :: "AudioBuffer \<Rightarrow> byte list" where
  "wavHeader abuffer =
     (let numOfChan = numberOfChannels abuffer; length = wavLength abuffer in
      setUint32 0x46464952 @ setUint32 (length - 8) @ setUint32 0x45564157 @
      setUint32 0x20746d66 @ setUint32 16 @ setUint16 1 @ setUint16 numOfChan @
      setUint32 (sampleRate abuffer) @ setUint32 (sampleRate abuffer * 2 * numOfChan) @
      setUint16 (numOfChan * 2) @ setUint16 16 @ setUint32 0x61746164 @
      setUint32 (length - 40 - 4))"

definition bufferToWav :: "AudioBuffer \<Rightarrow> byte list" where
  "bufferToWav abuffer =
     wavHeader abuffer @ dataBytes (channelData abuffer) 0 (buf_length abuffer)"

section \<open>Slicing (\<open>sliceAudio\<close>)\<close>

text \<open>
  \<open>new AudioContext().createBuffer(numberOfChannels, length, sampleRate)\<close> is an operation
  of the host, not of the repository. The Web Audio API gives its contract: the new buffer
  holds \<open>length\<close> frames of silence in each channel, and the call raises
  \<open>NotSupportedError\<close> when an argument is negative or zero.
\<close>

definition createBuffer :: "nat \<Rightarrow> int \<Rightarrow> nat \<Rightarrow> error + AudioBuffer" where
  "createBuffer numOfChannels len rate =
     (if numOfChannels = 0 \<or> len \<le> 0 \<or> rate = 0 then Inl NotSupportedError
      else Inr \<lparr>sampleRate = rate, buf_length = nat len,
                channelData = replicate numOfChannels (replicate (nat len) (Num 0))\<rparr>)"

text \<open>
  The copy loop of one channel:
  \<open>for (i = 0; i < frameCount; i++) if (offset + i < channelData.length)
  newChannelData[i] = channelData[offset + i]\<close>.
\<close>

definition copyStep :: "number list \<Rightarrow> int \<Rightarrow> number list \<Rightarrow> nat \<Rightarrow> number list" where
  "copyStep channel offset newChannel i =
     (if offset + int i < int (length channel)
      then newChannel[i := at_index channel (offset + int i)] else newChannel)"

definition copyChannel :: "number list \<Rightarrow> int \<Rightarrow> nat \<Rightarrow> number list \<Rightarrow> number list" where
  "copyChannel channel offset frameCount newChannel =
     foldl (copyStep channel offset) newChannel [0..<frameCount]"

text \<open>\<open>sliceBuffer\<close> is \<open>newBuffer\<close> as it stands when it is handed to \<open>bufferToWav\<close>.\<close>

definition sliceBuffer :: "AudioBuffer \<Rightarrow> real \<Rightarrow> real \<Rightarrow> error + AudioBuffer" where
  "sliceBuffer buffer start end' =
     (let duration = end' - start;
          rate = sampleRate buffer;
          frameCount = \<lfloor>duration * real rate\<rfloor>
      in case createBuffer (numberOfChannels buffer) frameCount rate of
           Inl e \<Rightarrow> Inl e
         | Inr newBuffer \<Rightarrow>
             (let offset = \<lfloor>start * real rate\<rfloor> in
              Inr (newBuffer\<lparr>channelData :=
                     map (\<lambda>(channel, newChannel).
                            copyChannel channel offset (nat frameCount) newChannel)
                         (zip (channelData buffer) (channelData newBuffer))\<rparr>)))"

definition sliceAudio :: "AudioBuffer \<Rightarrow> real \<Rightarrow> real \<Rightarrow> error + byte list" where
  "sliceAudio buffer start end' =
     (case sliceBuffer buffer start end' of
        Inl e \<Rightarrow> Inl e
      | Inr newBuffer \<Rightarrow> Inr (bufferToWav newBuffer))"

text \<open>
  Modelled from the spec: the WAV reader of the round-trip property, which the repository
  does not contain. It reads the 16-bit little-endian two's complement value of channel
  \<open>c\<close> in frame \<open>j\<close> of the data area, which starts at byte 44, and divides it by
  the full scale of the reader: \<open>32767\<close>, the unit in which the specification states its
  error bound, or \<open>32768\<close>, as the decoder of the Web Audio API does.
\<close>

definition getInt16 :: "byte list \<Rightarrow> int" where
  "getInt16 bs =
     (let u = int (unat (bs ! 0)) + 256 * int (unat (bs ! 1))
      in if 32768 \<le> u then u - 65536 else u)"

definition wavSample :: "real \<Rightarrow> byte list \<Rightarrow> nat \<Rightarrow> nat \<Rightarrow> nat \<Rightarrow> real" where
  "wavSample fullScale wav numOfChan c j =
     real_of_int (getInt16 (take 2 (drop (44 + 2 * (j * numOfChan + c)) wav))) / fullScale"

section \<open>Audio assets and their split lists\<close>

text \<open>
  An element of \<open>segments\<close>: its \<open>start\<close>, \<open>end\<close> and \<open>blob\<close>, the bytes of the WAV
  file. Its \<open>id\<close> and \<open>url\<close> are handles made by the host (\<open>crypto.randomUUID\<close>,
  \<open>URL.createObjectURL\<close>) and are left out.
\<close>

record Segment =
  seg_start :: real
  seg_end :: real
  blob :: "byte list"

text \<open>
  The interfaces \<open>AudioAsset\<close> and \<open>AppConfig\<close> of the module \<open>types\<close>. The field
  \<open>asset_id\<close> is the \<open>id\<close> of the interface and \<open>asset_file\<close> its \<open>file\<close>, a \<open>File\<close>
  handle of the host for which its name stands; \<open>buffer\<close> is \<open>AudioBuffer | null\<close>.
\<close>

record AudioAsset =
  asset_id :: string
  asset_file :: string
  name :: string
  duration :: real
  url :: string
  buffer :: "AudioBuffer option"
  splitPoints :: "real list"
  segments :: "Segment list"

record AppConfig =
  maxSegmentDuration :: real

text \<open>
  The handlers call \<open>onUpdate\<close> with the new asset; the model returns the asset as the
  owner holds it after the handler, which is the old one when \<open>onUpdate\<close> is not called.
  \<open>time ?? currentTime\<close> takes the playback position when no time is passed. The sum
  \<open>point + delta\<close> of \<open>adjustSplitPoint\<close> is a binary64 sum: the rounding \<open>rnd\<close> of its
  result is a parameter. \<open>Math.max\<close>, \<open>Math.min\<close>, \<open>includes\<close>, \<open>===\<close> and the sort are
  exact.
\<close>

definition addSplitPoint :: "AudioAsset \<Rightarrow> real \<Rightarrow> real option \<Rightarrow> AudioAsset" where
  "addSplitPoint asset currentTime time =
     (let t = max 0 (min (duration asset) (case time of None \<Rightarrow> currentTime | Some x \<Rightarrow> x))
      in if t \<in> set (splitPoints asset) then asset
         else asset\<lparr>splitPoints := sort (splitPoints asset @ [t])\<rparr>)"

definition adjustSplitPoint :: "(real \<Rightarrow> real) \<Rightarrow> AudioAsset \<Rightarrow> real \<Rightarrow> real \<Rightarrow> AudioAsset" where
  "adjustSplitPoint rnd asset point delta =
     (let newPoint = max 0 (min (duration asset) (rnd (point + delta)))
      in asset\<lparr>splitPoints :=
           sort (map (\<lambda>p. if p = point then newPoint else p) (splitPoints asset))\<rparr>)"

definition removeSplitPoint :: "AudioAsset \<Rightarrow> real \<Rightarrow> AudioAsset" where
  "removeSplitPoint asset point =
     asset\<lparr>splitPoints := filter (\<lambda>p. p \<noteq> point) (splitPoints asset)\<rparr>"

section \<open>The split finder (\<open>autoDetectSplits\<close>)\<close>

text \<open>\<open>Math.abs\<close> and \<open>+\<close> on numbers: \<open>NaN\<close> is absorbing.\<close>

definition absNum :: "number \<Rightarrow> number" where
  "absNum x = (case x of NaN \<Rightarrow> NaN | Num r \<Rightarrow> Num \<bar>r\<bar>)"



text \<open>
  The state of the scan is \<open>(minEnergy, bestTime)\<close>. \<open>minEnergy\<close> starts as \<open>Infinity\<close>,
  written \<open>None\<close>, and is only ever assigned an energy that compared less, which is not
  \<open>NaN\<close>. \<open>probe\<close> is the body of the scan for the chunk that starts at sample \<open>s\<close>:
  \<open>if (energy < minEnergy) { minEnergy = energy; bestTime = s / sampleRate; }\<close>.
\<close>

definition energyLess :: "number \<Rightarrow> real option \<Rightarrow> bool" where
  "energyLess energy minEnergy =
     (case energy of NaN \<Rightarrow> False
      | Num e \<Rightarrow> (case minEnergy of None \<Rightarrow> True | Some m \<Rightarrow> e < m))"





section \<open>The waveform summary\<close>

text \<open>
  Both waveform effects run the same loops: for each column \<open>i\<close> below the canvas width,
  \<open>min = 1.0\<close>, \<open>max = -1.0\<close>, and for each \<open>j\<close> below \<open>step\<close> the sample
  \<open>data[i * step + j]\<close> replaces \<open>min\<close> when it is less and \<open>max\<close> when it is greater.
  A comparison with \<open>undefined\<close> is false. The pair drawn for a column is
  \<open>(min, max)\<close>.
\<close>

definition peakStep :: "real \<times> real \<Rightarrow> number \<Rightarrow> real \<times> real" where
  "peakStep mm datum =
     (case datum of NaN \<Rightarrow> mm
      | Num d \<Rightarrow> (if d < fst mm then d else fst mm, if d > snd mm then d else snd mm))"

definition columnPeak :: "number list \<Rightarrow> nat \<Rightarrow> nat \<Rightarrow> real \<times> real" where
  "columnPeak data step i =
     foldl (\<lambda>mm j. peakStep mm (at_index data (int (i * step + j)))) (1, - 1) [0..<step]"

definition waveformPeaks :: "number list \<Rightarrow> nat \<Rightarrow> (real \<times> real) list" where
  "waveformPeaks data width =
     (let step = nat \<lceil>real (length data) / real width\<rceil>
      in map (columnPeak data step) [0..<width])"

text \<open>\<open>TypedArray.subarray(begin, end)\<close>: a negative index counts from the end and both
  indices are clamped to the array.\<close>

definition subarray :: "number list \<Rightarrow> int \<Rightarrow> int \<Rightarrow> number list" where
  "subarray xs startIdx endIdx =
     (let len = int (length xs);
          b = (if startIdx < 0 then max (len + startIdx) 0 else min startIdx len);
          e = (if endIdx < 0 then max (len + endIdx) 0 else min endIdx len)
      in take (nat (e - b)) (drop (nat b) xs))"

text \<open>The effect of \<open>AudioProcessor\<close> on the whole of channel 0, and the one of
  \<open>AudioSegmentPreview\<close> on the samples of a segment.\<close>

definition assetWaveform :: "AudioBuffer \<Rightarrow> nat \<Rightarrow> (real \<times> real) list" where
  "assetWaveform ab width =
     (case channelData ab of [] \<Rightarrow> [] | buf # others \<Rightarrow> waveformPeaks buf width)"

definition segmentWaveform :: "AudioBuffer \<Rightarrow> real \<Rightarrow> real \<Rightarrow> nat \<Rightarrow> (real \<times> real) list" where
  "segmentWaveform parentBuffer start end' width =
     (case channelData parentBuffer of
        [] \<Rightarrow> []
      | data # others \<Rightarrow>
          (let rate = sampleRate parentBuffer;
               startIdx = \<lfloor>start * real rate\<rfloor>;
               endIdx = \<lfloor>end' * real rate\<rfloor>;
               segmentData = subarray data startIdx endIdx
           in waveformPeaks segmentData width))"

section \<open>Binary64 arithmetic\<close>

text \<open>
  A JavaScript number is a binary64 number. Each \<open>+\<close>, \<open>-\<close>, \<open>*\<close> and \<open>/\<close> of the source
  yields the exact result rounded to the nearest binary64 number, and a decimal literal
  such as \<open>0.1\<close> denotes the binary64 number nearest to it. The definitions of this section
  take the rounding as the parameter \<open>rnd\<close> and apply it at every operation of the source
  whose exact result need not be a binary64 number. \<open>Math.floor\<close>, \<open>Math.min\<close>,
  \<open>Math.max\<close>, comparisons, sums of indices and of pixel bytes (integers far below
  \<open>2 ^ 53\<close>) and the literals \<open>0.5\<close>, \<open>1\<close>, \<open>3\<close>, \<open>5\<close> and \<open>10\<close> are exact.
\<close>

text \<open>
  What the statements assume of the rounding: it is monotone, and the binary64 number it
  gives for a real of magnitude at most \<open>2 ^ k\<close> is within \<open>2 ^ k / 2 ^ 53\<close> of that real
  (half a unit in the last place), overflow being out of reach for \<open>k \<le> 1023\<close>. Rounding
  to the nearest binary64 number, ties to even, is such a function, and so is the identity.
\<close>

definition rounds :: "(real \<Rightarrow> real) \<Rightarrow> bool" where
  "rounds rnd \<longleftrightarrow>
     (\<forall>x y. x \<le> y \<longrightarrow> rnd x \<le> rnd y) \<and>
     (\<forall>k \<le> 1023. \<forall>x. \<bar>x\<bar> \<le> 2 ^ k \<longrightarrow> \<bar>rnd x - x\<bar> \<le> 2 ^ k / 2 ^ 53)"

text \<open>
  The roundings at which the statements are run. \<open>roundUp x v rnd\<close> is \<open>rnd\<close> changed to
  give the binary64 number \<open>v\<close> for the reals from \<open>x\<close> up to \<open>v\<close>, as binary64 does when
  \<open>v\<close> is the binary64 number nearest to \<open>x\<close>. \<open>tenth64\<close> is the binary64 number of the
  literal \<open>0.1\<close>, and \<open>roundLiteral\<close> rounds \<open>1 / 10\<close> to it and leaves every other number
  as it is: it is the rounding of binary64 on a run in which every result but the literal
  is a binary64 number already.
\<close>

definition roundUp :: "real \<Rightarrow> real \<Rightarrow> (real \<Rightarrow> real) \<Rightarrow> real \<Rightarrow> real" where
  "roundUp x v rnd y = (if x \<le> y \<and> y \<le> v then v else rnd y)"

definition tenth64 :: real where
  "tenth64 = 3602879701896397 / 36028797018963968"

definition roundLiteral :: "real \<Rightarrow> real" where
  "roundLiteral = roundUp (1 / 10) tenth64 (\<lambda>y. y)"

text \<open>
  \<open>backOff64\<close> lists the binary64 numbers that repeated subtraction of \<open>0.1\<close> from \<open>1\<close>
  gives: \<open>1\<close>, \<open>0.9\<close>, \<open>0.8\<close>, \<open>0.7000000000000001\<close>, \<open>0.6000000000000001\<close>,
  \<open>0.5000000000000001\<close> and \<open>0.40000000000000013\<close>. \<open>roundBackOff\<close> rounds the literal
  and each of these six differences as binary64 does.
\<close>

definition backOff64 :: "real list" where
  "backOff64 =
     [1,
      8106479329266893 / 9007199254740992,
      3602879701896397 / 4503599627370496,
      6305039478318695 / 9007199254740992,
      1351079888211149 / 2251799813685248,
      4503599627370497 / 9007199254740992,
      1801439850948199 / 4503599627370496]"

definition roundBackOff :: "real \<Rightarrow> real" where
  "roundBackOff =
     roundUp (backOff64 ! 5 - tenth64) (backOff64 ! 6)
       (roundUp (backOff64 ! 4 - tenth64) (backOff64 ! 5)
          (roundUp (backOff64 ! 3 - tenth64) (backOff64 ! 4)
             (roundUp (backOff64 ! 2 - tenth64) (backOff64 ! 3)
                (roundUp (backOff64 ! 1 - tenth64) (backOff64 ! 2)
                   (roundUp (backOff64 ! 0 - tenth64) (backOff64 ! 1) roundLiteral)))))"

subsection \<open>Slicing\<close>

text \<open>
  The host of \<open>new AudioContext().createBuffer\<close> is modelled by its nominal ranges: the
  sample rates and the number of channels it supports. The Web Audio API has the call raise
  \<open>NotSupportedError\<close> when an argument is negative, zero or outside its nominal range;
  every host supports the rates from 8000 Hz to 96000 Hz and up to 32 channels. The
  memory of the host, which bounds the length, is not modelled. The slicer of the section on
  slicing reads the arithmetic over the reals and the host as accepting every positive
  argument; rounding and the nominal ranges have no bearing on the failure of a slice with
  \<open>end \<le> start\<close>, for which it is kept.
\<close>

record AudioContext =
  minSampleRate :: nat
  maxSampleRate :: nat
  maxChannels :: nat

definition hostCreateBuffer :: "AudioContext \<Rightarrow> nat \<Rightarrow> int \<Rightarrow> nat \<Rightarrow> error + AudioBuffer" where
  "hostCreateBuffer ctx numOfChannels len rate =
     (if numOfChannels = 0 \<or> maxChannels ctx < numOfChannels \<or> len \<le> 0 \<or>
         rate = 0 \<or> rate < minSampleRate ctx \<or> maxSampleRate ctx < rate
      then Inl NotSupportedError
      else Inr \<lparr>sampleRate = rate, buf_length = nat len,
                channelData = replicate numOfChannels (replicate (nat len) (Num 0))\<rparr>)"

text \<open>
  \<open>sliceAudio\<close> with its arithmetic in binary64: \<open>duration = end - start\<close>,
  \<open>frameCount = Math.floor(duration * sampleRate)\<close> and
  \<open>offset = Math.floor(start * sampleRate)\<close>. The copy loop and the serialiser are those
  of the sections above: a \<open>Float32Array\<close> element is copied as it is, and the products
  \<open>sample * 32768\<close> and \<open>sample * 32767\<close> of a binary32 sample are binary64 numbers.
\<close>

definition sliceBuffer64 ::
  "(real \<Rightarrow> real) \<Rightarrow> AudioContext \<Rightarrow> AudioBuffer \<Rightarrow> real \<Rightarrow> real \<Rightarrow> error + AudioBuffer" where
  "sliceBuffer64 rnd ctx buffer' start end' =
     (let duration' = rnd (end' - start);
          rate = sampleRate buffer';
          frameCount = \<lfloor>rnd (duration' * real rate)\<rfloor>
      in case hostCreateBuffer ctx (numberOfChannels buffer') frameCount rate of
           Inl e \<Rightarrow> Inl e
         | Inr newBuffer \<Rightarrow>
             (let offset = \<lfloor>rnd (start * real rate)\<rfloor> in
              Inr (newBuffer\<lparr>channelData :=
                     map (\<lambda>(channel, newChannel).
                            copyChannel channel offset (nat frameCount) newChannel)
                         (zip (channelData buffer') (channelData newBuffer))\<rparr>)))"

definition sliceAudio64 ::
  "(real \<Rightarrow> real) \<Rightarrow> AudioContext \<Rightarrow> AudioBuffer \<Rightarrow> real \<Rightarrow> real \<Rightarrow> error + byte list" where
  "sliceAudio64 rnd ctx buffer' start end' =
     (case sliceBuffer64 rnd ctx buffer' start end' of
        Inl e \<Rightarrow> Inl e
      | Inr newBuffer \<Rightarrow> Inr (bufferToWav newBuffer))"

subsection \<open>Batch slicing (\<open>generateSegments\<close>)\<close>

text \<open>
  The loop over \<open>points[i]\<close>, \<open>points[i + 1]\<close> with its guard
  \<open>if (end - start < 0.1) continue\<close>. \<open>asset.buffer!\<close> is only an assertion of the type
  checker: with no buffer the first slice fails on \<open>buffer.sampleRate\<close>. A failed slice
  rejects the whole handler and the asset is not updated.
\<close>

fun sliceLoop ::
  "(real \<Rightarrow> real) \<Rightarrow> AudioContext \<Rightarrow> AudioBuffer option \<Rightarrow> real list \<Rightarrow> Segment list \<Rightarrow>
   error + Segment list" where
  "sliceLoop rnd ctx buf (start # end' # rest) newSegments =
     (if rnd (end' - start) < rnd (1 / 10) then sliceLoop rnd ctx buf (end' # rest) newSegments
      else case buf of
             None \<Rightarrow> Inl TypeError
           | Some b \<Rightarrow>
               (case sliceAudio64 rnd ctx b start end' of
                  Inl e \<Rightarrow> Inl e
                | Inr segmentBlob \<Rightarrow>
                    sliceLoop rnd ctx buf (end' # rest)
                      (newSegments @ [\<lparr>seg_start = start, seg_end = end', blob = segmentBlob\<rparr>])))"
| "sliceLoop rnd ctx buf points newSegments = Inr newSegments"

definition generateSegments :: "(real \<Rightarrow> real) \<Rightarrow> AudioContext \<Rightarrow> AudioAsset \<Rightarrow> error + AudioAsset" where
  "generateSegments rnd ctx asset =
     (let points = [0] @ splitPoints asset @ [duration asset]
      in case sliceLoop rnd ctx (buffer asset) points [] of
           Inl e \<Rightarrow> Inl e
         | Inr newSegments \<Rightarrow> Inr (asset\<lparr>segments := newSegments\<rparr>))"

subsection \<open>The split finder\<close>

text \<open>
  The loops of \<open>autoDetectSplits\<close> with their arithmetic in binary64:
  \<open>energy += Math.abs(buffer[s + i])\<close>, \<open>bestTime = s / sampleRate\<close>,
  \<open>currentPos + maxDur\<close>, \<open>currentPos + 1\<close>, \<open>currentPos + maxDur - searchWindow\<close>,
  the products with \<open>sampleRate\<close>, \<open>0.1 * sampleRate\<close> and \<open>maxDur / 2\<close>. \<open>findSplits64\<close>
  is the computation of \<open>newSplits\<close> inside the handler.
\<close>

definition addNum64 :: "(real \<Rightarrow> real) \<Rightarrow> number \<Rightarrow> number \<Rightarrow> number" where
  "addNum64 rnd x y =
     (case x of NaN \<Rightarrow> NaN | Num a \<Rightarrow> (case y of NaN \<Rightarrow> NaN | Num b \<Rightarrow> Num (rnd (a + b))))"

definition chunkEnergy64 :: "(real \<Rightarrow> real) \<Rightarrow> number list \<Rightarrow> int \<Rightarrow> nat \<Rightarrow> number" where
  "chunkEnergy64 rnd buf s chunkSize =
     foldl (\<lambda>energy i. addNum64 rnd energy (absNum (at_index buf (s + int i)))) (Num 0)
       [0..<chunkSize]"

definition probe64 ::
  "(real \<Rightarrow> real) \<Rightarrow> number list \<Rightarrow> nat \<Rightarrow> nat \<Rightarrow> int \<Rightarrow> real option \<times> real \<Rightarrow> real option \<times> real" where
  "probe64 rnd buf rate chunkSize s st =
     (let energy = chunkEnergy64 rnd buf s chunkSize
      in if energyLess energy (fst st)
         then (case energy of Num e \<Rightarrow> (Some e, rnd (real_of_int s / real rate)) | NaN \<Rightarrow> st)
         else st)"

partial_function (option) scanChunks64 ::
  "(real \<Rightarrow> real) \<Rightarrow> number list \<Rightarrow> nat \<Rightarrow> nat \<Rightarrow> int \<Rightarrow> int \<Rightarrow> real option \<times> real \<Rightarrow>
   (real option \<times> real) option" where
  "scanChunks64 rnd buf rate chunkSize endSample s st =
     (if s < endSample then
        (if s + int chunkSize > int (length buf) then Some st
         else scanChunks64 rnd buf rate chunkSize endSample (s + int chunkSize)
                (probe64 rnd buf rate chunkSize s st))
      else Some st)"

definition findBest64 ::
  "(real \<Rightarrow> real) \<Rightarrow> number list \<Rightarrow> nat \<Rightarrow> real \<Rightarrow> real \<Rightarrow> real \<Rightarrow> real option" where
  "findBest64 rnd buf rate maxDur searchWindow currentPos =
     (let bestTime = rnd (currentPos + maxDur);
          searchStartSec =
            max (rnd (currentPos + 1)) (rnd (rnd (currentPos + maxDur) - searchWindow));
          searchEndSec = rnd (currentPos + maxDur);
          startSample = \<lfloor>rnd (searchStartSec * real rate)\<rfloor>;
          endSample = \<lfloor>rnd (searchEndSec * real rate)\<rfloor>;
          chunkSize = nat \<lfloor>rnd (rnd (1 / 10) * real rate)\<rfloor>
      in map_option snd
           (scanChunks64 rnd buf rate chunkSize endSample startSample (None, bestTime)))"

partial_function (option) splitLoop64 ::
  "(real \<Rightarrow> real) \<Rightarrow> number list \<Rightarrow> nat \<Rightarrow> real \<Rightarrow> real \<Rightarrow> real \<Rightarrow> real \<Rightarrow> real list \<Rightarrow>
   real list option" where
  "splitLoop64 rnd buf rate totalDuration maxDur searchWindow currentPos newSplits =
     (if rnd (currentPos + maxDur) < totalDuration then
        Option.bind (findBest64 rnd buf rate maxDur searchWindow currentPos)
          (\<lambda>bestTime. splitLoop64 rnd buf rate totalDuration maxDur searchWindow bestTime
                         (newSplits @ [bestTime]))
      else Some newSplits)"

definition findSplits64 ::
  "(real \<Rightarrow> real) \<Rightarrow> number list \<Rightarrow> nat \<Rightarrow> real \<Rightarrow> real \<Rightarrow> real list option" where
  "findSplits64 rnd buf rate totalDuration maxDur =
     (let searchWindow = min 5 (rnd (maxDur / 2))
      in splitLoop64 rnd buf rate totalDuration maxDur searchWindow 0 [])"

text \<open>
  The handler \<open>autoDetectSplits\<close>. \<open>getChannelData(0)\<close> raises on a buffer with no
  channel, which ends the handler with no update, as the guard
  \<open>if (!asset.buffer) return\<close> does. \<open>None\<close> is a handler whose loops never end.
\<close>

definition autoDetectSplits ::
  "(real \<Rightarrow> real) \<Rightarrow> AudioAsset \<Rightarrow> AppConfig \<Rightarrow> AudioAsset option" where
  "autoDetectSplits rnd asset config =
     (case buffer asset of
        None \<Rightarrow> Some asset
      | Some ab \<Rightarrow>
          (case channelData ab of
             [] \<Rightarrow> Some asset
           | buf # others \<Rightarrow>
               map_option (\<lambda>newSplits. asset\<lparr>splitPoints := newSplits, segments := []\<rparr>)
                 (findSplits64 rnd buf (sampleRate ab) (duration asset)
                    (maxSegmentDuration config))))"

subsection \<open>The frame brightness prober (\<open>findGoodFrame\<close>)\<close>

text \<open>
  The video element is a host object. It is modelled by its duration and by the image the
  canvas holds after a seek: \<open>getImageData\<close> returns four bytes per pixel, here one
  record per pixel. Assigning \<open>currentTime\<close> seeks to the time clamped to the media, and
  the \<open>seeked\<close> handler then runs once.
\<close>

record pixel =
  red :: byte
  green :: byte
  blue :: byte
  alpha :: byte

record Video =
  video_duration :: real
  frameAt :: "real \<Rightarrow> pixel list"

definition seek :: "Video \<Rightarrow> real \<Rightarrow> pixel list" where
  "seek video time = frameAt video (max 0 (min (video_duration video) time))"

text \<open>\<open>totalBrightness += (imageData[i] + imageData[i+1] + imageData[i+2]) / 3\<close> for each
  pixel, and \<open>avgBrightness = totalBrightness / (imageData.length / 4)\<close>. The sum of the
  three bytes and the number of pixels are exact; the division by \<open>3\<close>, each \<open>+=\<close> and the
  final division round.\<close>

definition totalBrightness :: "(real \<Rightarrow> real) \<Rightarrow> pixel list \<Rightarrow> real" where
  "totalBrightness rnd imageData =
     foldl (\<lambda>total p. rnd (total +
              rnd (real (unat (red p) + unat (green p) + unat (blue p)) / 3)))
       0 imageData"

definition avgBrightness :: "(real \<Rightarrow> real) \<Rightarrow> pixel list \<Rightarrow> real" where
  "avgBrightness rnd imageData =
     rnd (totalBrightness rnd imageData / real (length imageData))"

text \<open>
  The promise of \<open>findGoodFrame\<close> resolves with the encoded frame and its time, or with
  \<open>null\<close> when \<open>toBlob\<close> yields no blob. On a canvas with no pixel \<open>getImageData\<close>
  raises inside the handler and the promise is never settled. \<open>toBlob\<close> is the host's
  encoder. The chain of retries \<open>findGoodFrame(time - 0.1)\<close> need not end for every
  rounding, so the function is partial: \<open>None\<close> is a chain that never ends.
\<close>

datatype outcome = Resolved "(byte list \<times> real) option" | NeverSettles

partial_function (option) findGoodFrame ::
  "(real \<Rightarrow> real) \<Rightarrow> Video \<Rightarrow> (pixel list \<Rightarrow> byte list option) \<Rightarrow> real \<Rightarrow> outcome option" where
  "findGoodFrame rnd video toBlob time =
     (let imageData = seek video time in
      if imageData = [] then Some NeverSettles
      else if avgBrightness rnd imageData < 10 \<and> time > 1 / 2
           then findGoodFrame rnd video toBlob (rnd (time - rnd (1 / 10)))
           else Some (Resolved (map_option (\<lambda>b. (b, time)) (toBlob imageData))))"

definition extractLastFrame ::
  "(real \<Rightarrow> real) \<Rightarrow> Video \<Rightarrow> (pixel list \<Rightarrow> byte list option) \<Rightarrow> outcome option" where
  "extractLastFrame rnd video toBlob =
     (let duration' = video_duration video; seekTime = rnd (duration' - rnd (5 / 100))
      in findGoodFrame rnd video toBlob seekTime)"

section \<open>Notions used in the statements\<close>

text \<open>The value of a sample that is a number.\<close>

definition sampleValue :: "number \<Rightarrow> real" where
  "sampleValue x = (case x of NaN \<Rightarrow> 0 | Num r \<Rightarrow> r)"




text \<open>The starts of the complete chunks from sample \<open>s\<close> on, in scan order.\<close>

function windowChunks :: "nat \<Rightarrow> int \<Rightarrow> nat \<Rightarrow> int \<Rightarrow> int list" where
  "windowChunks chunkSize endSample len s =
     (if 0 < chunkSize \<and> s < endSample \<and> s + int chunkSize \<le> int len
      then s # windowChunks chunkSize endSample len (s + int chunkSize) else [])"
  by pat_completeness auto
termination
  by (relation "measure (\<lambda>(chunkSize, endSample, len, s). nat (endSample - s))") auto

declare windowChunks.simps [simp del]

text \<open>
  The invariant of a split list in the words of the specification: strictly ascending
  (hence without duplicates), each time strictly inside \<open>(0, duration)\<close>; and the same
  with the closed range \<open>[0, duration]\<close>.
\<close>

definition splitInvariant :: "real \<Rightarrow> real list \<Rightarrow> bool" where
  "splitInvariant d ps = (sorted_wrt (<) ps \<and> list_all (\<lambda>t. 0 < t \<and> t < d) ps)"

definition splitInvariantClosed :: "real \<Rightarrow> real list \<Rightarrow> bool" where
  "splitInvariantClosed d ps = (sorted_wrt (<) ps \<and> list_all (\<lambda>t. 0 \<le> t \<and> t \<le> d) ps)"

text \<open>A sample of a SampleBuffer: a number in \<open>[-1, 1]\<close>.\<close>

definition unitSample :: "number \<Rightarrow> bool" where
  "unitSample x = (case x of NaN \<Rightarrow> False | Num r \<Rightarrow> - 1 \<le> r \<and> r \<le> 1)"

text \<open>
  The samples under column \<open>i\<close> of the waveform: the window
  \<open>[i * step, i * step + step)\<close>, clipped to the end of the data.
\<close>

definition columnWindow :: "number list \<Rightarrow> nat \<Rightarrow> nat \<Rightarrow> real list" where
  "columnWindow data step i = map sampleValue (take step (drop (i * step) data))"

text \<open>The luma of a pixel in the words of the specification: the mean of its red, green
  and blue values on the 0 to 255 scale.\<close>

definition luma :: "pixel \<Rightarrow> real" where
  "luma p = (real (unat (red p)) + real (unat (green p)) + real (unat (blue p))) / 3"

text \<open>
  A buffer the host supports: it has a channel and no more channels than the host's
  maximum, and its sample rate is positive and within the host's range.
\<close>

definition supports :: "AudioContext \<Rightarrow> AudioBuffer \<Rightarrow> bool" where
  "supports ctx b \<longleftrightarrow>
     1 \<le> numberOfChannels b \<and> numberOfChannels b \<le> maxChannels ctx \<and>
     1 \<le> sampleRate b \<and> minSampleRate ctx \<le> sampleRate b \<and> sampleRate b \<le> maxSampleRate ctx"

text \<open>
  The sample of a slice in the words of the specification: the source sample at index
  \<open>k\<close> when that index is within the source channel, and silence otherwise.
\<close>

definition sourceSample :: "number list \<Rightarrow> int \<Rightarrow> number" where
  "sourceSample channel k =
     (if 0 \<le> k \<and> k < int (length channel) then channel ! nat k else Num 0)"

text \<open>
  One round of the \<open>while\<close> loop in binary64: it runs when the rounded sum \<open>p + maxDur\<close>
  is below \<open>totalDuration\<close>, and the candidate \<open>x\<close> is that sum or the rounded time
  \<open>s / sampleRate\<close> of a sample \<open>s\<close> from \<open>startSample\<close> on and before \<open>endSample\<close>.
\<close>

definition cursorStep64 ::
  "(real \<Rightarrow> real) \<Rightarrow> nat \<Rightarrow> real \<Rightarrow> real \<Rightarrow> real \<Rightarrow> real \<Rightarrow> real \<Rightarrow> bool" where
  "cursorStep64 rnd rate totalDuration maxDur searchWindow p x =
     (rnd (p + maxDur) < totalDuration \<and>
      (x = rnd (p + maxDur) \<or>
       (\<exists>s :: int. x = rnd (real_of_int s / real rate) \<and>
          \<lfloor>rnd (max (rnd (p + 1)) (rnd (rnd (p + maxDur) - searchWindow)) * real rate)\<rfloor> \<le> s \<and>
          s < \<lfloor>rnd (rnd (p + maxDur) * real rate)\<rfloor>)))"

text \<open>The time of the \<open>k\<close>-th retry of the prober: \<open>k\<close> times \<open>time - 0.1\<close> from \<open>time\<close>.\<close>

primrec probeTime :: "(real \<Rightarrow> real) \<Rightarrow> real \<Rightarrow> nat \<Rightarrow> real" where
  "probeTime rnd time 0 = time"
| "probeTime rnd time (Suc k) = rnd (probeTime rnd time k - rnd (1 / 10))"

section \<open>Properties of the WAV serialiser\<close>

lemma trunc_near: "\<bar>real_of_int (trunc x) - x\<bar> < 1"
  unfolding trunc_def by (auto; linarith)

lemma trunc_mono_bounds:
  "real_of_int a \<le> x \<Longrightarrow> x \<le> real_of_int b \<Longrightarrow> a \<le> 0 \<Longrightarrow> 0 \<le> b \<Longrightarrow> a \<le> trunc x \<and> trunc x \<le> b"
  unfolding trunc_def by (auto simp: ceiling_le_iff le_floor_iff; linarith)

lemma toInt32_id: "- 2147483648 \<le> trunc x \<Longrightarrow> trunc x < 2147483648 \<Longrightarrow> toInt32 x = trunc x"
  unfolding toInt32_def by (simp add: mod_pos_pos_trivial)

lemma sampleToInt16_Num:
  assumes "- 1 \<le> r" "r \<le> 1"
  shows "sampleToInt16 (Num r) = trunc (if 1 / 2 + r < 0 then r * 32768 else r * 32767)"
    and "- 32768 \<le> sampleToInt16 (Num r)" and "sampleToInt16 (Num r) \<le> 32767"
    and "\<bar>real_of_int (sampleToInt16 (Num r)) - 32767 * r\<bar> \<le> 1"
proof -
  let ?x = "if 1 / 2 + r < 0 then r * 32768 else r * 32767"
  have b: "real_of_int (- 32768) \<le> ?x" "?x \<le> real_of_int 32767"
    using assms by auto
  have tb: "- 32768 \<le> trunc ?x \<and> trunc ?x \<le> 32767"
    by (rule trunc_mono_bounds[OF b]) simp_all
  have cl: "clampSample (Num r) = Num r"
    using assms by (simp add: clampSample_def)
  have "toInt32 ?x = trunc ?x"
    by (rule toInt32_id) (use tb in linarith)+
  then show eq: "sampleToInt16 (Num r) = trunc ?x"
    by (simp add: sampleToInt16_def cl scaleSample_def)
  show "- 32768 \<le> sampleToInt16 (Num r)" "sampleToInt16 (Num r) \<le> 32767"
    using tb eq by simp_all
  show "\<bar>real_of_int (sampleToInt16 (Num r)) - 32767 * r\<bar> \<le> 1"
  proof (cases "1 / 2 + r < 0")
    case True
    then have x: "?x = r * 32768" by simp
    have neg: "r * 32768 < 0" using True by simp
    have t: "trunc (r * 32768) = \<lceil>r * 32768\<rceil>" using neg by (simp add: trunc_def)
    have "r * 32768 \<le> real_of_int \<lceil>r * 32768\<rceil>" "real_of_int \<lceil>r * 32768\<rceil> < r * 32768 + 1"
      by linarith+
    then show ?thesis unfolding eq x t using assms True by (simp add: abs_le_iff; linarith)
  next
    case False
    then have x: "?x = r * 32767" by simp
    show ?thesis unfolding eq x using trunc_near[of "r * 32767"] by (simp add: algebra_simps)
  qed
qed

lemma unat_byte_of_int: "int (unat (word_of_int k :: byte)) = k mod 256"
  by (simp add: uint_word_of_int)

lemma getInt16_setInt16:
  assumes "- 32768 \<le> v" "v \<le> 32767"
  shows "getInt16 (setInt16 v) = v"
proof -
  have nth: "setInt16 v ! 0 = word_of_int (v mod 256)"
    "setInt16 v ! 1 = word_of_int (v div 256 mod 256)"
    by (simp_all add: setInt16_def)
  have "v mod (256 * 256) = 256 * (v div 256 mod 256) + v mod 256"
    by (rule zmod_zmult2_eq) simp
  then have u: "int (unat (setInt16 v ! 0)) + 256 * int (unat (setInt16 v ! 1)) = v mod 65536"
    by (simp only: nth unat_byte_of_int mod_mod_trivial) simp
  show ?thesis
  proof (cases "0 \<le> v")
    case True
    with assms have "v mod 65536 = v"
      by (simp add: mod_pos_pos_trivial)
    with True assms show ?thesis
      unfolding getInt16_def Let_def u by simp
  next
    case False
    have a: "(v + 65536) mod 65536 = v mod 65536"
      by (rule mod_add_self2)
    have b: "(v + 65536) mod 65536 = v + 65536"
      by (rule mod_pos_pos_trivial) (use False assms in simp_all)
    have "v mod 65536 = v + 65536"
      unfolding a[symmetric] by (rule b)
    with False assms show ?thesis
      unfolding getInt16_def Let_def u by simp
  qed
qed

lemma length_setInt16: "length (setInt16 v) = 2"
  by (simp add: setInt16_def)

lemma length_frameBytes: "length (frameBytes chans offset) = 2 * length chans"
  by (induction chans) (simp_all add: frameBytes_def length_setInt16)

lemma length_dataBytes: "length (dataBytes chans offset n) = 2 * length chans * n"
  by (induction n arbitrary: offset) (simp_all add: length_frameBytes algebra_simps)

lemma length_wavHeader: "length (wavHeader abuffer) = 44"
  by (simp add: wavHeader_def Let_def setUint32_def setUint16_def)

lemma length_bufferToWav:
  "length (bufferToWav abuffer) = 44 + 2 * numberOfChannels abuffer * buf_length abuffer"
  by (simp add: bufferToWav_def length_wavHeader length_dataBytes numberOfChannels_def)

lemma bufferToWav_header:
  "take 44 (bufferToWav abuffer) =
     setUint32 0x46464952 @
     setUint32 (buf_length abuffer * numberOfChannels abuffer * 2 + 36) @
     setUint32 0x45564157 @ setUint32 0x20746d66 @ setUint32 16 @ setUint16 1 @
     setUint16 (numberOfChannels abuffer) @ setUint32 (sampleRate abuffer) @
     setUint32 (sampleRate abuffer * 2 * numberOfChannels abuffer) @
     setUint16 (numberOfChannels abuffer * 2) @ setUint16 16 @ setUint32 0x61746164 @
     setUint32 (buf_length abuffer * numberOfChannels abuffer * 2)"
proof -
  have "take 44 (bufferToWav abuffer) = wavHeader abuffer"
    by (simp add: bufferToWav_def length_wavHeader)
  moreover have "wavLength abuffer - 8 = buf_length abuffer * numberOfChannels abuffer * 2 + 36"
    "wavLength abuffer - 40 - 4 = buf_length abuffer * numberOfChannels abuffer * 2"
    by (simp_all add: wavLength_def)
  ultimately show ?thesis
    by (simp only: wavHeader_def Let_def)
qed

text \<open>
  C1. The serialiser is claimed to scale every negative sample by 32768 and every other
  sample by 32767. The source tests \<open>0.5 + sample < 0\<close>, so a sample in \<open>[-0.5, 0)\<close> is
  scaled by 32767: the sample \<open>-0.25\<close> is stored as \<open>-8191\<close> (bytes \<open>01 E0\<close>), where the
  claimed conversion stores \<open>trunc (-0.25 * 32768) = -8192\<close> (bytes \<open>00 E0\<close>). The
  header of the same one-frame mono buffer at 8000 Hz is as claimed.
\<close>

theorem bufferToWav_quarter_sample:
  "sampleToInt16 (Num (- (1 / 4))) = - 8191 \<and>
   trunc (- (1 / 4) * 32768) = - 8192 \<and>
   bufferToWav \<lparr>sampleRate = 8000, buf_length = 1, channelData = [[Num (- (1 / 4))]]\<rparr> =
     [82, 73, 70, 70, 38, 0, 0, 0, 87, 65, 86, 69, 102, 109, 116, 32, 16, 0, 0, 0, 1, 0, 1, 0,
      64, 31, 0, 0, 128, 62, 0, 0, 2, 0, 16, 0, 100, 97, 116, 97, 2, 0, 0, 0, 1, 224]"
proof -
  have v: "sampleToInt16 (Num (- (1 / 4))) = - 8191"
    by (simp add: sampleToInt16_def scaleSample_def clampSample_def toInt32_def trunc_def)
  have t: "trunc (- (1 / 4) * 32768) = - 8192"
    by (simp add: trunc_def)
  have w: "bufferToWav \<lparr>sampleRate = 8000, buf_length = 1, channelData = [[Num (- (1 / 4))]]\<rparr> =
     [82, 73, 70, 70, 38, 0, 0, 0, 87, 65, 86, 69, 102, 109, 116, 32, 16, 0, 0, 0, 1, 0, 1, 0,
      64, 31, 0, 0, 128, 62, 0, 0, 2, 0, 16, 0, 100, 97, 116, 97, 2, 0, 0, 0, 1, 224]"
    by (simp add: bufferToWav_def wavHeader_def wavLength_def numberOfChannels_def
        setUint32_def setUint16_def setInt16_def frameBytes_def at_index_def v)
  from v t w show ?thesis by simp
qed

section \<open>Properties of the roundings\<close>

lemma rounds_exact: "rounds (\<lambda>y. y)"
  by (simp add: rounds_def)

lemma rounds_mono: "rounds rnd \<Longrightarrow> x \<le> y \<Longrightarrow> rnd x \<le> rnd y"
  by (simp add: rounds_def)

lemma rounds_near:
  "rounds rnd \<Longrightarrow> k \<le> 1023 \<Longrightarrow> \<bar>x\<bar> \<le> 2 ^ k \<Longrightarrow> \<bar>rnd x - x\<bar> \<le> 2 ^ k / 2 ^ 53"
  by (simp add: rounds_def)

lemma rounds_roundUp:
  assumes "rounds rnd" and "x \<le> v" and "v - x \<le> 1 / 2 ^ 53" and "rnd v = v"
  shows "rounds (roundUp x v rnd)"
proof -
  have mono: "roundUp x v rnd a \<le> roundUp x v rnd b" if "a \<le> b" for a b
  proof -
    have below: "rnd y \<le> v" if "y \<le> v" for y
      using rounds_mono[OF assms(1) that] assms(4) by simp
    have above: "v \<le> rnd y" if "v \<le> y" for y
      using rounds_mono[OF assms(1) that] assms(4) by simp
    from that below[of a] above[of b] rounds_mono[OF assms(1) that] show ?thesis
      by (auto simp: roundUp_def)
  qed
  have near: "\<bar>roundUp x v rnd y - y\<bar> \<le> 2 ^ k / 2 ^ 53" if "k \<le> 1023" "\<bar>y\<bar> \<le> 2 ^ k" for k y
  proof (cases "x \<le> y \<and> y \<le> v")
    case True
    have "(1 :: real) \<le> 2 ^ k" by simp
    then have "(1 :: real) / 2 ^ 53 \<le> 2 ^ k / 2 ^ 53"
      by (simp add: divide_right_mono)
    moreover from True have "\<bar>roundUp x v rnd y - y\<bar> \<le> v - x"
      by (simp add: roundUp_def)
    ultimately show ?thesis
      using assms(3) by linarith
  next
    case False
    then have "roundUp x v rnd y = rnd y"
      by (auto simp: roundUp_def)
    with rounds_near[OF assms(1) that] show ?thesis by simp
  qed
  from mono near show ?thesis
    unfolding rounds_def by blast
qed

lemma rounds_roundLiteral: "rounds roundLiteral"
  unfolding roundLiteral_def
  by (rule rounds_roundUp[OF rounds_exact]) (simp_all add: tenth64_def)

lemma rounds_within:
  assumes "rounds rnd" and "k \<le> 1023" and "\<bar>x\<bar> \<le> 2 ^ k"
  shows "x - 2 ^ k / 2 ^ 53 \<le> rnd x" and "rnd x \<le> x + 2 ^ k / 2 ^ 53"
proof -
  from rounds_near[OF assms] have "\<bar>rnd x - x\<bar> \<le> 2 ^ k / 2 ^ 53" .
  then show "x - 2 ^ k / 2 ^ 53 \<le> rnd x" and "rnd x \<le> x + 2 ^ k / 2 ^ 53"
    by linarith+
qed

text \<open>The rounding error of a number of magnitude at most \<open>1\<close>, \<open>2 ^ 20\<close> and \<open>2 ^ 40\<close>.\<close>

lemma rounds_unit:
  assumes "rounds rnd" and "\<bar>x\<bar> \<le> 1"
  shows "x - 1 / 2 ^ 53 \<le> rnd x" and "rnd x \<le> x + 1 / 2 ^ 53"
  using rounds_within[OF assms(1), of 0 x] assms(2) by simp_all

lemma rounds_time:
  assumes "rounds rnd" and "\<bar>x\<bar> \<le> 2 ^ 20"
  shows "x - 1 / 2 ^ 33 \<le> rnd x" and "rnd x \<le> x + 1 / 2 ^ 33"
  using rounds_within[OF assms(1), of 20 x] assms(2) by simp_all

lemma rounds_index:
  assumes "rounds rnd" and "\<bar>x\<bar> \<le> 2 ^ 40"
  shows "x - 1 / 2 ^ 13 \<le> rnd x" and "rnd x \<le> x + 1 / 2 ^ 13"
  using rounds_within[OF assms(1), of 40 x] assms(2) by simp_all

section \<open>Properties of the slicer\<close>

lemma copyChannel_length: "length (copyChannel channel offset n newChannel) = length newChannel"
  by (induction n) (simp_all add: copyChannel_def copyStep_def)

lemma copyChannel_nth:
  "j < length newChannel \<Longrightarrow>
   copyChannel channel offset n newChannel ! j =
     (if j < n \<and> offset + int j < int (length channel)
      then at_index channel (offset + int j) else newChannel ! j)"
proof (induction n)
  case 0
  then show ?case by (simp add: copyChannel_def)
next
  case (Suc n)
  have len: "length (foldl (copyStep channel offset) newChannel [0..<n]) = length newChannel"
    using copyChannel_length[of channel offset n newChannel] by (simp add: copyChannel_def)
  from Suc show ?case
    by (auto simp: copyChannel_def copyStep_def len nth_list_update less_Suc_eq)
qed

lemma map_zip_replicate:
  "map (\<lambda>(a, b). f a b) (zip xs (replicate (length xs) y)) = map (\<lambda>a. f a y) xs"
  by (induction xs) simp_all

lemma sliceBuffer_fails:
  "\<lfloor>(end' - start) * real (sampleRate buf)\<rfloor> \<le> 0 \<Longrightarrow>
   sliceBuffer buf start end' = Inl NotSupportedError"
  by (simp add: sliceBuffer_def createBuffer_def)

lemma frameBytes_at:
  "c < length chans \<Longrightarrow>
   take 2 (drop (2 * c) (frameBytes chans offset)) =
     setInt16 (sampleToInt16 (at_index (chans ! c) (int offset)))"
proof (induction chans arbitrary: c)
  case Nil
  then show ?case by simp
next
  case (Cons ch chans)
  show ?case
  proof (cases c)
    case 0
    then show ?thesis by (simp add: frameBytes_def length_setInt16)
  next
    case (Suc c')
    with Cons.prems have "c' < length chans" by simp
    from Cons.IH[OF this] Suc show ?thesis
      by (simp add: frameBytes_def length_setInt16)
  qed
qed

lemma dataBytes_at:
  "j < n \<Longrightarrow> c < length chans \<Longrightarrow>
   take 2 (drop (2 * (j * length chans + c)) (dataBytes chans offset n)) =
     setInt16 (sampleToInt16 (at_index (chans ! c) (int (offset + j))))"
proof (induction n arbitrary: j offset)
  case 0
  then show ?case by simp
next
  case (Suc n)
  show ?case
  proof (cases j)
    case 0
    have "2 * c + 2 \<le> length (frameBytes chans offset)"
      using Suc.prems(2) by (simp add: length_frameBytes)
    then have "take 2 (drop (2 * c) (frameBytes chans offset @ dataBytes chans (Suc offset) n))
        = take 2 (drop (2 * c) (frameBytes chans offset))"
      by simp
    with 0 Suc.prems(2) show ?thesis
      by (simp add: frameBytes_at)
  next
    case (Suc j')
    with Suc.prems have j': "j' < n" by simp
    have "drop (2 * (j * length chans + c)) (frameBytes chans offset @ dataBytes chans (Suc offset) n)
        = drop (2 * (j' * length chans + c)) (dataBytes chans (Suc offset) n)"
      using Suc by (simp add: length_frameBytes algebra_simps)
    with Suc.IH[OF j' Suc.prems(2), of "Suc offset"] Suc show ?thesis
      by simp
  qed
qed

lemma bufferToWav_at:
  assumes "j < buf_length abuffer" "c < numberOfChannels abuffer"
  shows "take 2 (drop (44 + 2 * (j * numberOfChannels abuffer + c)) (bufferToWav abuffer)) =
     setInt16 (sampleToInt16 (at_index (channelData abuffer ! c) (int j)))"
proof -
  have "drop (44 + 2 * (j * numberOfChannels abuffer + c)) (bufferToWav abuffer)
      = drop (2 * (j * numberOfChannels abuffer + c))
          (dataBytes (channelData abuffer) 0 (buf_length abuffer))"
    by (simp add: bufferToWav_def length_wavHeader)
  with dataBytes_at[of j "buf_length abuffer" c "channelData abuffer" 0] assms show ?thesis
    by (simp add: numberOfChannels_def)
qed

text \<open>With the full scale 32768 the bound \<open>1 / 32767\<close> does not hold: the sample
  \<open>0.9999\<close> is stored as \<open>32763\<close>.\<close>

lemma reader_32768_example:
  "sampleToInt16 (Num (9999 / 10000)) = 32763 \<and>
   1 / 32767 < \<bar>real_of_int (sampleToInt16 (Num (9999 / 10000))) / 32768 - 9999 / 10000\<bar>"
proof -
  have "sampleToInt16 (Num (9999 / 10000)) = 32763"
    by (simp add: sampleToInt16_def scaleSample_def clampSample_def toInt32_def trunc_def)
  then show ?thesis
    by simp
qed

text \<open>
  C7. A direct call of the slicer with \<open>end \<le> start\<close> fails and returns no WAV: the
  frame count is not positive and the host's \<open>createBuffer\<close> raises
  \<open>NotSupportedError\<close>. The slicer has no range check of its own.
\<close>

theorem sliceAudio_empty_range:
  "end' \<le> start \<Longrightarrow> sliceAudio buf start end' = Inl NotSupportedError"
proof -
  assume "end' \<le> start"
  then have "(end' - start) * real (sampleRate buf) \<le> 0"
    by (simp add: mult_nonpos_nonneg)
  then have "\<lfloor>(end' - start) * real (sampleRate buf)\<rfloor> \<le> 0"
    by (simp add: floor_le_iff)
  then show ?thesis
    by (simp add: sliceAudio_def sliceBuffer_fails)
qed

theorem sliceAudio_empty_range_witness:
  "(1 :: real) \<le> 2 \<and>
   sliceAudio \<lparr>sampleRate = 8000, buf_length = 1, channelData = [[Num 0]]\<rparr> 2 1 =
     Inl NotSupportedError"
  using sliceAudio_empty_range[of 1 2 "\<lparr>sampleRate = 8000, buf_length = 1, channelData = [[Num 0]]\<rparr>"]
  by simp

text \<open>The failure of such a call is not the \<open>InvalidRange\<close> of the specification.\<close>

theorem sliceAudio_not_InvalidRange:
  "sliceAudio \<lparr>sampleRate = 8000, buf_length = 1, channelData = [[Num 0]]\<rparr> 1 1 \<noteq>
     Inl InvalidRange"
  by (simp add: sliceAudio_def sliceBuffer_def createBuffer_def)

section \<open>Properties of the slicer in binary64\<close>

lemma sampleToInt16_silence: "sampleToInt16 NaN = 0" "sampleToInt16 (Num 0) = 0"
  by (simp_all add: sampleToInt16_def clampSample_def scaleSample_def toInt32_def trunc_def)

lemma sampleToInt16_clamped:
  "sampleToInt16 (Num r) = sampleToInt16 (Num (max (- 1) (min 1 r)))"
  by (simp add: sampleToInt16_def clampSample_def)

lemma sampleToInt16_range: "- 32768 \<le> sampleToInt16 x \<and> sampleToInt16 x \<le> 32767"
proof (cases x)
  case NaN
  then show ?thesis by (simp add: sampleToInt16_silence)
next
  case (Num r)
  have "- 1 \<le> max (- 1) (min 1 r)" "max (- 1) (min 1 r) \<le> 1"
    by simp_all
  from sampleToInt16_Num(2,3)[OF this] show ?thesis
    unfolding Num sampleToInt16_clamped[of r] by simp
qed

lemma wavSample_near:
  assumes "getInt16 (take 2 (drop (44 + 2 * (j * n + c)) wav)) = sampleToInt16 (Num r)"
    and "- 1 \<le> r" "r \<le> 1"
  shows "\<bar>wavSample 32767 wav n c j - r\<bar> \<le> 1 / 32767"
    and "\<bar>wavSample 32768 wav n c j - r\<bar> \<le> 1 / 16384"
proof -
  let ?v = "real_of_int (sampleToInt16 (Num r))"
  have eq: "wavSample s wav n c j = ?v / s" for s
    unfolding wavSample_def assms(1) ..
  have near: "\<bar>?v - 32767 * r\<bar> \<le> 1"
    by (rule sampleToInt16_Num(4)[OF assms(2,3)])
  have "\<bar>?v / 32767 - r\<bar> = \<bar>?v - 32767 * r\<bar> / 32767"
    by (simp add: field_simps)
  also have "\<dots> \<le> 1 / 32767"
    using near by (simp add: divide_right_mono)
  finally show "\<bar>wavSample 32767 wav n c j - r\<bar> \<le> 1 / 32767"
    unfolding eq .
  have "\<bar>?v - 32768 * r\<bar> \<le> 2"
    using near assms(2,3) by (simp add: abs_le_iff)
  moreover have "\<bar>?v / 32768 - r\<bar> = \<bar>?v - 32768 * r\<bar> / 32768"
    by (simp add: field_simps)
  ultimately have "\<bar>?v / 32768 - r\<bar> \<le> 2 / 32768"
    by (simp add: divide_right_mono)
  then show "\<bar>wavSample 32768 wav n c j - r\<bar> \<le> 1 / 16384"
    unfolding eq by simp
qed

lemma sliceBuffer64_ok:
  assumes "supports ctx buf" and "1 \<le> \<lfloor>rnd (rnd (end' - start) * real (sampleRate buf))\<rfloor>"
  shows "sliceBuffer64 rnd ctx buf start end' =
    Inr \<lparr>sampleRate = sampleRate buf,
         buf_length = nat \<lfloor>rnd (rnd (end' - start) * real (sampleRate buf))\<rfloor>,
         channelData =
           map (\<lambda>channel. copyChannel channel \<lfloor>rnd (start * real (sampleRate buf))\<rfloor>
                  (nat \<lfloor>rnd (rnd (end' - start) * real (sampleRate buf))\<rfloor>)
                  (replicate (nat \<lfloor>rnd (rnd (end' - start) * real (sampleRate buf))\<rfloor>) (Num 0)))
               (channelData buf)\<rparr>"
proof -
  from assms(1) have "\<not> (numberOfChannels buf = 0 \<or> maxChannels ctx < numberOfChannels buf \<or>
      sampleRate buf = 0 \<or> sampleRate buf < minSampleRate ctx \<or>
      maxSampleRate ctx < sampleRate buf)"
    by (auto simp: supports_def)
  with assms(2) show ?thesis
    by (simp add: sliceBuffer64_def hostCreateBuffer_def numberOfChannels_def Let_def
        map_zip_replicate)
qed

lemma copied_sample:
  assumes "j < n"
  shows "copyChannel channel off n (replicate n (Num 0)) ! j =
    (if off + int j < 0 then NaN else sourceSample channel (off + int j))"
  using assms by (simp add: copyChannel_nth at_index_def sourceSample_def)

lemma copied_value:
  "sampleToInt16 (if k < 0 then NaN else sourceSample channel k) =
   sampleToInt16 (sourceSample channel k)"
  by (simp add: sourceSample_def sampleToInt16_silence)

text \<open>
  C5. On a buffer the host supports, a slice whose frame count
  \<open>floor ((end - start) * sampleRate)\<close>, as binary64 computes it, is at least \<open>1\<close> succeeds.
  The buffer handed to the serialiser has that many frames in each channel; frame \<open>j\<close> of
  channel \<open>c\<close> is the source sample at \<open>floor (start * sampleRate) + j\<close> when that index is
  inside the source channel, silence when it is at or past its end, and \<open>NaN\<close> when it is
  negative, which the serialiser stores as \<open>0\<close>. So the WAV has
  \<open>44 + 2 * channels * frameCount\<close> bytes, its 16-bit value of frame \<open>j\<close> and channel
  \<open>c\<close> is the conversion of that source sample, or of silence outside the source channel,
  and every such sample in \<open>[-1, 1]\<close> is read back from the WAV within \<open>1 / 32767\<close> by a
  reader of full scale 32767 and within \<open>1 / 16384\<close> by a reader of full scale 32768.
\<close>

theorem sliceAudio_frames:
  fixes rnd :: "real \<Rightarrow> real" and ctx :: AudioContext and buf :: AudioBuffer
    and start end' :: real
  defines "frameCount \<equiv> \<lfloor>rnd (rnd (end' - start) * real (sampleRate buf))\<rfloor>"
  defines "offset \<equiv> \<lfloor>rnd (start * real (sampleRate buf))\<rfloor>"
  assumes "supports ctx buf" and "1 \<le> frameCount"
  shows "\<exists>newBuffer.
    sliceBuffer64 rnd ctx buf start end' = Inr newBuffer \<and>
    sliceAudio64 rnd ctx buf start end' = Inr (bufferToWav newBuffer) \<and>
    sampleRate newBuffer = sampleRate buf \<and>
    numberOfChannels newBuffer = numberOfChannels buf \<and>
    buf_length newBuffer = nat frameCount \<and>
    length (bufferToWav newBuffer) = 44 + 2 * numberOfChannels buf * nat frameCount \<and>
    (\<forall>c < numberOfChannels buf.
       length (channelData newBuffer ! c) = nat frameCount \<and>
       (\<forall>j < nat frameCount.
          channelData newBuffer ! c ! j =
            (if offset + int j < 0 then NaN
             else sourceSample (channelData buf ! c) (offset + int j)) \<and>
          getInt16 (take 2 (drop (44 + 2 * (j * numberOfChannels buf + c))
                              (bufferToWav newBuffer))) =
            sampleToInt16 (sourceSample (channelData buf ! c) (offset + int j)) \<and>
          (\<forall>r. sourceSample (channelData buf ! c) (offset + int j) = Num r \<and>
                - 1 \<le> r \<and> r \<le> 1 \<longrightarrow>
             \<bar>wavSample 32767 (bufferToWav newBuffer) (numberOfChannels buf) c j - r\<bar>
               \<le> 1 / 32767 \<and>
             \<bar>wavSample 32768 (bufferToWav newBuffer) (numberOfChannels buf) c j - r\<bar>
               \<le> 1 / 16384)))"
proof -
  define n where "n = nat frameCount"
  define nb where "nb = \<lparr>sampleRate = sampleRate buf, buf_length = n,
    channelData = map (\<lambda>channel. copyChannel channel offset n (replicate n (Num 0)))
                    (channelData buf)\<rparr>"
  have sb: "sliceBuffer64 rnd ctx buf start end' = Inr nb"
    using sliceBuffer64_ok[OF assms(3), of rnd end' start] assms(4)
    by (simp add: nb_def n_def offset_def frameCount_def)
  have sa: "sliceAudio64 rnd ctx buf start end' = Inr (bufferToWav nb)"
    by (simp add: sliceAudio64_def sb)
  have nch: "numberOfChannels nb = numberOfChannels buf"
    by (simp add: nb_def numberOfChannels_def)
  have len: "buf_length nb = n"
    by (simp add: nb_def)
  have wl: "length (bufferToWav nb) = 44 + 2 * numberOfChannels buf * n"
    by (simp add: length_bufferToWav nch len)
  have chan: "length (channelData nb ! c) = n \<and>
      (\<forall>j < n.
          channelData nb ! c ! j =
            (if offset + int j < 0 then NaN
             else sourceSample (channelData buf ! c) (offset + int j)) \<and>
          getInt16 (take 2 (drop (44 + 2 * (j * numberOfChannels buf + c)) (bufferToWav nb))) =
            sampleToInt16 (sourceSample (channelData buf ! c) (offset + int j)) \<and>
          (\<forall>r. sourceSample (channelData buf ! c) (offset + int j) = Num r \<and>
                - 1 \<le> r \<and> r \<le> 1 \<longrightarrow>
             \<bar>wavSample 32767 (bufferToWav nb) (numberOfChannels buf) c j - r\<bar> \<le> 1 / 32767 \<and>
             \<bar>wavSample 32768 (bufferToWav nb) (numberOfChannels buf) c j - r\<bar> \<le> 1 / 16384))"
    if c: "c < numberOfChannels buf" for c
  proof -
    let ?ch = "channelData buf ! c"
    have nth: "channelData nb ! c = copyChannel ?ch offset n (replicate n (Num 0))"
      using c by (simp add: nb_def numberOfChannels_def)
    have l: "length (channelData nb ! c) = n"
      by (simp add: nth copyChannel_length)
    have smp: "channelData nb ! c ! j =
        (if offset + int j < 0 then NaN else sourceSample ?ch (offset + int j))"
      if "j < n" for j
      unfolding nth by (rule copied_sample[OF that])
    have val: "getInt16 (take 2 (drop (44 + 2 * (j * numberOfChannels buf + c)) (bufferToWav nb)))
        = sampleToInt16 (sourceSample ?ch (offset + int j))"
      if j: "j < n" for j
    proof -
      have "at_index (channelData nb ! c) (int j) = channelData nb ! c ! j"
        using j l by (simp add: at_index_def)
      then have "take 2 (drop (44 + 2 * (j * numberOfChannels nb + c)) (bufferToWav nb))
          = setInt16 (sampleToInt16 (channelData nb ! c ! j))"
        using bufferToWav_at[of j nb c] j c by (simp add: len nch)
      then have "getInt16 (take 2 (drop (44 + 2 * (j * numberOfChannels buf + c)) (bufferToWav nb)))
          = sampleToInt16 (channelData nb ! c ! j)"
        using sampleToInt16_range[of "channelData nb ! c ! j"]
        by (simp add: nch getInt16_setInt16)
      also have "\<dots> = sampleToInt16 (sourceSample ?ch (offset + int j))"
        unfolding smp[OF j] by (rule copied_value)
      finally show ?thesis .
    qed
    have err: "\<bar>wavSample 32767 (bufferToWav nb) (numberOfChannels buf) c j - r\<bar> \<le> 1 / 32767 \<and>
        \<bar>wavSample 32768 (bufferToWav nb) (numberOfChannels buf) c j - r\<bar> \<le> 1 / 16384"
      if "j < n" "sourceSample ?ch (offset + int j) = Num r" "- 1 \<le> r" "r \<le> 1" for j r
      using wavSample_near[OF val[OF that(1), unfolded that(2)] that(3,4)] by simp
    from l smp val err show ?thesis by blast
  qed
  have "sliceBuffer64 rnd ctx buf start end' = Inr nb \<and>
    sliceAudio64 rnd ctx buf start end' = Inr (bufferToWav nb) \<and>
    sampleRate nb = sampleRate buf \<and> numberOfChannels nb = numberOfChannels buf \<and>
    buf_length nb = n \<and> length (bufferToWav nb) = 44 + 2 * numberOfChannels buf * n \<and>
    (\<forall>c < numberOfChannels buf. length (channelData nb ! c) = n \<and>
      (\<forall>j < n.
          channelData nb ! c ! j =
            (if offset + int j < 0 then NaN
             else sourceSample (channelData buf ! c) (offset + int j)) \<and>
          getInt16 (take 2 (drop (44 + 2 * (j * numberOfChannels buf + c)) (bufferToWav nb))) =
            sampleToInt16 (sourceSample (channelData buf ! c) (offset + int j)) \<and>
          (\<forall>r. sourceSample (channelData buf ! c) (offset + int j) = Num r \<and>
                - 1 \<le> r \<and> r \<le> 1 \<longrightarrow>
             \<bar>wavSample 32767 (bufferToWav nb) (numberOfChannels buf) c j - r\<bar> \<le> 1 / 32767 \<and>
             \<bar>wavSample 32768 (bufferToWav nb) (numberOfChannels buf) c j - r\<bar> \<le> 1 / 16384)))"
    using sb sa nch len wl chan by (simp add: nb_def)
  then show ?thesis
    unfolding n_def by (intro exI[of _ nb])
qed

text \<open>
  The theorem at a four-sample buffer at 8192 Hz, sliced from the second sample over four
  sample periods, on a host with the ranges every host supports. Every operation of this
  run is exact in binary64. The last frame of the slice lies past the end of the source
  and is silence.
\<close>

theorem sliceAudio_frames_witness:
  "\<exists>wav.
     sliceAudio64 (\<lambda>y. y) \<lparr>minSampleRate = 8000, maxSampleRate = 96000, maxChannels = 32\<rparr>
        \<lparr>sampleRate = 8192, buf_length = 4,
         channelData = [[Num (1 / 2), Num (- (1 / 4)), Num 1, Num (1 / 8)]]\<rparr>
        (1 / 8192) (5 / 8192)
       = Inr wav \<and>
     length wav = 52 \<and>
     getInt16 (take 2 (drop 44 wav)) = - 8191 \<and>
     getInt16 (take 2 (drop 46 wav)) = 32767 \<and>
     getInt16 (take 2 (drop 48 wav)) = 4095 \<and>
     getInt16 (take 2 (drop 50 wav)) = 0 \<and>
     \<bar>wavSample 32767 wav 1 0 0 - (- (1 / 4))\<bar> \<le> 1 / 32767"
proof -
  let ?ctx = "\<lparr>minSampleRate = 8000, maxSampleRate = 96000, maxChannels = 32\<rparr>"
  let ?B = "\<lparr>sampleRate = 8192, buf_length = 4,
              channelData = [[Num (1 / 2), Num (- (1 / 4)), Num 1, Num (1 / 8)]]\<rparr>"
  have h1: "supports ?ctx ?B"
    by (simp add: supports_def numberOfChannels_def)
  have n: "\<lfloor>(5 / 8192 - 1 / 8192) * real (sampleRate ?B)\<rfloor> = 4"
    by simp
  have h2: "1 \<le> \<lfloor>(5 / 8192 - 1 / 8192) * real (sampleRate ?B)\<rfloor>"
    unfolding n by simp
  have off: "\<lfloor>1 / 8192 * real (sampleRate ?B)\<rfloor> = 1"
    by simp
  from sliceAudio_frames[where rnd = "\<lambda>y. y" and ctx = ?ctx and buf = ?B
      and start = "1 / 8192" and end' = "5 / 8192", OF h1 h2] obtain nb where
    nb: "sliceAudio64 (\<lambda>y. y) ?ctx ?B (1 / 8192) (5 / 8192) = Inr (bufferToWav nb)"
      "length (bufferToWav nb) = 44 + 2 * numberOfChannels ?B * nat 4"
      "\<forall>c < numberOfChannels ?B. \<forall>j < nat 4.
          getInt16 (take 2 (drop (44 + 2 * (j * numberOfChannels ?B + c)) (bufferToWav nb))) =
            sampleToInt16 (sourceSample (channelData ?B ! c) (1 + int j)) \<and>
          (\<forall>r. sourceSample (channelData ?B ! c) (1 + int j) = Num r \<and> - 1 \<le> r \<and> r \<le> 1 \<longrightarrow>
             \<bar>wavSample 32767 (bufferToWav nb) (numberOfChannels ?B) c j - r\<bar> \<le> 1 / 32767)"
    unfolding n off by blast
  have c0: "(0 :: nat) < numberOfChannels ?B"
    by (simp add: numberOfChannels_def)
  have conv: "sampleToInt16 (Num (- (1 / 4))) = - 8191" "sampleToInt16 (Num 1) = 32767"
    "sampleToInt16 (Num (1 / 8)) = 4095"
    by (simp_all add: sampleToInt16_def scaleSample_def clampSample_def toInt32_def trunc_def)
  have v0: "getInt16 (take 2 (drop 44 (bufferToWav nb))) = - 8191"
    using nb(3)[rule_format, OF c0, of 0]
    by (simp add: numberOfChannels_def sourceSample_def conv)
  have v1: "getInt16 (take 2 (drop 46 (bufferToWav nb))) = 32767"
    using nb(3)[rule_format, OF c0, of 1]
    by (simp add: numberOfChannels_def sourceSample_def conv)
  have v2: "getInt16 (take 2 (drop 48 (bufferToWav nb))) = 4095"
    using nb(3)[rule_format, OF c0, of 2]
    by (simp add: numberOfChannels_def sourceSample_def conv)
  have v3: "getInt16 (take 2 (drop 50 (bufferToWav nb))) = 0"
    using nb(3)[rule_format, OF c0, of 3]
    by (simp add: numberOfChannels_def sourceSample_def sampleToInt16_silence)
  have e0: "\<bar>wavSample 32767 (bufferToWav nb) 1 0 0 - (- (1 / 4))\<bar> \<le> 1 / 32767"
    using nb(3)[rule_format, OF c0, of 0, THEN conjunct2, rule_format, of "- (1 / 4)"]
    by (simp add: numberOfChannels_def sourceSample_def)
  from nb(1,2) v0 v1 v2 v3 e0 show ?thesis
    by (intro exI[of _ "bufferToWav nb"]) (simp add: numberOfChannels_def)
qed

text \<open>
  The claim as stated covers every range with \<open>start < end\<close>. A range shorter than one
  sample period has \<open>frameCount = 0\<close>, which the host's \<open>createBuffer\<close> rejects: no WAV
  is produced. At 8000 Hz and \<open>end = 2 ^ -14\<close> the product is \<open>125 / 256\<close>, exact in
  binary64.
\<close>

theorem sliceAudio_short_range_fails:
  "(0 :: real) < 1 / 16384 \<and>
   \<lfloor>(1 / 16384 - 0) * real (8000 :: nat)\<rfloor> = 0 \<and>
   sliceAudio64 (\<lambda>y. y) \<lparr>minSampleRate = 8000, maxSampleRate = 96000, maxChannels = 32\<rparr>
     \<lparr>sampleRate = 8000, buf_length = 1, channelData = [[Num 0]]\<rparr> 0 (1 / 16384) =
     Inl NotSupportedError"
  by (simp add: sliceAudio64_def sliceBuffer64_def hostCreateBuffer_def)

section \<open>Properties of batch slicing\<close>

lemma guard_bounds:
  assumes "rounds rnd"
  shows "1 / 10 + 1 / 2 ^ 50 < d \<Longrightarrow> \<not> rnd d < rnd (1 / 10)"
    and "d < 1 / 10 - 1 / 2 ^ 50 \<Longrightarrow> rnd d < rnd (1 / 10)"
proof -
  define e :: real where "e = 1 / 2 ^ 53"
  have e: "1 / 2 ^ 50 = 8 * e" "0 < e" "e < 1 / 100"
    by (simp_all add: e_def)
  have t: "1 / 10 - e \<le> rnd (1 / 10)" "rnd (1 / 10) \<le> 1 / 10 + e"
    unfolding e_def by (rule rounds_unit[OF assms]; simp)+
  have hi: "1 / 10 + 8 * e - e \<le> rnd (1 / 10 + 8 * e)"
    unfolding e_def by (rule rounds_unit(1)[OF assms]) simp
  have lo: "rnd (1 / 10 - 8 * e) \<le> 1 / 10 - 8 * e + e"
    unfolding e_def by (rule rounds_unit(2)[OF assms]) simp
  show "\<not> rnd d < rnd (1 / 10)" if "1 / 10 + 1 / 2 ^ 50 < d"
  proof -
    from that have "rnd (1 / 10 + 8 * e) \<le> rnd d"
      unfolding e(1) by (intro rounds_mono[OF assms]) simp
    with t hi e(2) show ?thesis by linarith
  qed
  show "rnd d < rnd (1 / 10)" if "d < 1 / 10 - 1 / 2 ^ 50"
  proof -
    from that have "rnd d \<le> rnd (1 / 10 - 8 * e)"
      unfolding e(1) by (intro rounds_mono[OF assms]) simp
    with t lo e(2) show ?thesis by linarith
  qed
qed

lemma sliceAudio64_ok:
  assumes "rounds rnd" and "supports ctx ab" and "11 \<le> sampleRate ab"
    and "\<not> rnd (end' - start) < rnd (1 / 10)"
  shows "\<exists>wav. sliceAudio64 rnd ctx ab start end' = Inr wav"
proof -
  let ?d = "rnd (end' - start)"
  define e :: real where "e = 1 / 2 ^ 53"
  have e: "0 < e" "e < 1 / 1000"
    by (simp_all add: e_def)
  have t: "1 / 10 - e \<le> rnd (1 / 10)"
    unfolding e_def by (rule rounds_unit[OF assms(1)]) simp
  with assms(4) e have d: "99 / 1000 \<le> ?d"
    by linarith
  have "(11 :: real) \<le> real (sampleRate ab)"
    using assms(3) by simp
  with d have "99 / 1000 * 11 \<le> ?d * real (sampleRate ab)"
    by (intro mult_mono) simp_all
  then have "rnd (1089 / 1000) \<le> rnd (?d * real (sampleRate ab))"
    by (intro rounds_mono[OF assms(1)]) simp
  moreover have "1089 / 1000 - 2 * e \<le> rnd (1089 / 1000)"
    using rounds_within(1)[OF assms(1), of 1 "1089 / 1000"] by (simp add: e_def)
  ultimately have "1 \<le> rnd (?d * real (sampleRate ab))"
    using e by linarith
  then have "1 \<le> \<lfloor>rnd (?d * real (sampleRate ab))\<rfloor>"
    by (simp add: le_floor_iff)
  from sliceBuffer64_ok[of ctx ab rnd end' start, OF assms(2) this] show ?thesis
    by (simp add: sliceAudio64_def)
qed

lemma sliceLoop_result:
  assumes "rounds rnd" and "supports ctx ab" and "11 \<le> sampleRate ab"
  shows "\<exists>new. sliceLoop rnd ctx (Some ab) points acc = Inr (acc @ new) \<and>
    map (\<lambda>s. (seg_start s, seg_end s)) new =
      filter (\<lambda>(a, b). \<not> rnd (b - a) < rnd (1 / 10)) (zip points (tl points)) \<and>
    (\<forall>s \<in> set new. sliceAudio64 rnd ctx ab (seg_start s) (seg_end s) = Inr (blob s))"
proof (induction points arbitrary: acc)
  case Nil
  then show ?case by simp
next
  case (Cons a points)
  show ?case
  proof (cases points)
    case Nil
    then show ?thesis by simp
  next
    case (Cons b rest)
    show ?thesis
    proof (cases "rnd (b - a) < rnd (1 / 10)")
      case True
      from Cons.IH[of acc] True Cons show ?thesis
        by simp
    next
      case False
      from sliceAudio64_ok[OF assms this] obtain wav where
        wav: "sliceAudio64 rnd ctx ab a b = Inr wav"
        by blast
      let ?seg = "\<lparr>seg_start = a, seg_end = b, blob = wav\<rparr>"
      from Cons.IH[of "acc @ [?seg]"] obtain new where
        new: "sliceLoop rnd ctx (Some ab) points (acc @ [?seg]) = Inr ((acc @ [?seg]) @ new)"
          "map (\<lambda>s. (seg_start s, seg_end s)) new =
             filter (\<lambda>(a, b). \<not> rnd (b - a) < rnd (1 / 10)) (zip points (tl points))"
          "\<forall>s \<in> set new. sliceAudio64 rnd ctx ab (seg_start s) (seg_end s) = Inr (blob s)"
        by blast
      show ?thesis
        using new wav False Cons by (intro exI[of _ "?seg # new"]) simp
    qed
  qed
qed

lemma pairs_chain:
  "sorted points \<Longrightarrow> sorted_wrt (\<lambda>p q. snd p \<le> fst q) (zip points (tl points))"
  for points :: "real list"
proof (induction points)
  case Nil
  then show ?case by simp
next
  case (Cons a points)
  show ?case
  proof (cases points)
    case Nil
    then show ?thesis by simp
  next
    case (Cons b rest)
    have "b \<le> fst q" if "q \<in> set (zip points (tl points))" for q
    proof -
      from that have "fst q \<in> set points"
        by (metis prod.collapse set_zip_leftD)
      with Cons \<open>sorted (a # points)\<close> show ?thesis by auto
    qed
    with Cons.IH Cons.prems Cons show ?thesis
      by auto
  qed
qed

lemma pairs_cover:
  "sorted points \<Longrightarrow> points \<noteq> [] \<Longrightarrow> hd points \<le> t \<Longrightarrow> t \<le> last points \<Longrightarrow> length points \<ge> 2 \<Longrightarrow>
   \<exists>(a, b) \<in> set (zip points (tl points)). a \<le> t \<and> t \<le> b"
  for points :: "real list"
proof (induction points)
  case Nil
  then show ?case by simp
next
  case (Cons a points)
  then obtain b rest where pts: "points = b # rest"
    by (cases points) auto
  show ?case
  proof (cases "t \<le> b")
    case True
    with Cons.prems pts show ?thesis by auto
  next
    case False
    then have bt: "b \<le> t" by simp
    have "rest \<noteq> []"
    proof
      assume "rest = []"
      with Cons.prems pts False show False by simp
    qed
    then have "length points \<ge> 2"
      using pts by (cases rest) auto
    with Cons.IH Cons.prems pts bt have
      "\<exists>(a, b) \<in> set (zip points (tl points)). a \<le> t \<and> t \<le> b"
      by auto
    with pts show ?thesis by auto
  qed
qed

lemma sorted_le_last: "sorted xs \<Longrightarrow> x \<in> set xs \<Longrightarrow> x \<le> last xs"
  for xs :: "real list"
  by (induction xs) auto

lemma pairs_within:
  "sorted points \<Longrightarrow> (a, b) \<in> set (zip points (tl points)) \<Longrightarrow> hd points \<le> a \<and> b \<le> last points"
  for points :: "real list"
proof -
  assume s: "sorted points" and m: "(a, b) \<in> set (zip points (tl points))"
  then have ne: "points \<noteq> []" by auto
  from m have a: "a \<in> set points" by (rule set_zip_leftD)
  from m have "b \<in> set (tl points)" by (rule set_zip_rightD)
  then have b: "b \<in> set points" by (rule list.set_sel(2)[OF ne])
  from s a ne have "hd points \<le> a"
    by (cases points) auto
  moreover from s b ne have "b \<le> last points"
    by (simp add: sorted_le_last)
  ultimately show ?thesis by simp
qed

text \<open>
  C4. For an asset whose buffer the host supports, sampled at 11 Hz or more, and an
  ascending boundary list \<open>[0, *splits, duration]\<close>, batch slicing succeeds and emits, in
  time order, one segment for each consecutive pair \<open>(start, end)\<close> whose difference
  \<open>end - start\<close>, as binary64 computes it, is not below the literal \<open>0.1\<close>, and none
  for the others: every pair more than \<open>0.1 + 2 ^ -50\<close> apart is emitted and every pair
  less than \<open>0.1 - 2 ^ -50\<close> apart is dropped. Each segment carries the slice of its
  range and lies inside \<open>[0, duration]\<close>; the segments are ascending and do not overlap;
  every time of \<open>[0, duration]\<close> lies in a segment or in a dropped pair; and an empty
  split list yields the single segment \<open>[0, duration]\<close> when the duration is not below
  \<open>0.1\<close>, and no segment otherwise.
\<close>

theorem generateSegments_boundaries:
  assumes "rounds rnd" and "buffer asset = Some ab" and "supports ctx ab"
    and "11 \<le> sampleRate ab" and "sorted (0 # splitPoints asset @ [duration asset])"
  shows "\<exists>newSegments.
    generateSegments rnd ctx asset = Inr (asset\<lparr>segments := newSegments\<rparr>) \<and>
    map (\<lambda>s. (seg_start s, seg_end s)) newSegments =
      filter (\<lambda>(a, b). \<not> rnd (b - a) < rnd (1 / 10))
        (zip (0 # splitPoints asset @ [duration asset]) (splitPoints asset @ [duration asset])) \<and>
    (\<forall>d. (1 / 10 + 1 / 2 ^ 50 < d \<longrightarrow> \<not> rnd d < rnd (1 / 10)) \<and>
         (d < 1 / 10 - 1 / 2 ^ 50 \<longrightarrow> rnd d < rnd (1 / 10))) \<and>
    (\<forall>s \<in> set newSegments.
       sliceAudio64 rnd ctx ab (seg_start s) (seg_end s) = Inr (blob s) \<and>
       0 \<le> seg_start s \<and> seg_start s + 1 / 10 - 1 / 2 ^ 50 \<le> seg_end s \<and>
       seg_end s \<le> duration asset) \<and>
    sorted_wrt (\<lambda>s s'. seg_end s \<le> seg_start s') newSegments \<and>
    (\<forall>t. 0 \<le> t \<and> t \<le> duration asset \<longrightarrow>
       (\<exists>s \<in> set newSegments. seg_start s \<le> t \<and> t \<le> seg_end s) \<or>
       (\<exists>(a, b) \<in> set (zip (0 # splitPoints asset @ [duration asset])
                          (splitPoints asset @ [duration asset])).
          rnd (b - a) < rnd (1 / 10) \<and> a \<le> t \<and> t \<le> b)) \<and>
    (splitPoints asset = [] \<longrightarrow>
       (if rnd (duration asset - 0) < rnd (1 / 10) then newSegments = []
        else \<exists>wav. newSegments = [\<lparr>seg_start = 0, seg_end = duration asset, blob = wav\<rparr>]))"
proof -
  define points where "points = 0 # splitPoints asset @ [duration asset]"
  define pairs where "pairs = zip points (tl points)"
  let ?drop = "\<lambda>(a :: real, b). rnd (b - a) < rnd (1 / 10)"
  have pairs_eq: "zip (0 # splitPoints asset @ [duration asset])
      (splitPoints asset @ [duration asset]) = pairs"
    by (simp add: pairs_def points_def)
  have srt: "sorted points"
    using assms(5) by (simp add: points_def)
  have hd_last: "hd points = 0" "last points = duration asset" "points \<noteq> []" "2 \<le> length points"
    by (simp_all add: points_def)
  from sliceLoop_result[OF assms(1,3,4), of points "[]"] obtain segs where
    loop: "sliceLoop rnd ctx (Some ab) points [] = Inr segs"
    and bounds: "map (\<lambda>s. (seg_start s, seg_end s)) segs =
      filter (\<lambda>(a, b). \<not> rnd (b - a) < rnd (1 / 10)) pairs"
    and blobs: "\<forall>s \<in> set segs. sliceAudio64 rnd ctx ab (seg_start s) (seg_end s) = Inr (blob s)"
    unfolding pairs_def by auto
  have gen: "generateSegments rnd ctx asset = Inr (asset\<lparr>segments := segs\<rparr>)"
    using loop assms(2) by (simp add: generateSegments_def points_def)
  have guard: "(1 / 10 + 1 / 2 ^ 50 < d \<longrightarrow> \<not> rnd d < rnd (1 / 10)) \<and>
         (d < 1 / 10 - 1 / 2 ^ 50 \<longrightarrow> rnd d < rnd (1 / 10))" for d
    using guard_bounds[OF assms(1), of d] by blast
  have kept: "(seg_start s, seg_end s) \<in> set pairs \<and> \<not> rnd (seg_end s - seg_start s) < rnd (1 / 10)"
    if "s \<in> set segs" for s
  proof -
    from that have "(seg_start s, seg_end s) \<in> set (map (\<lambda>s. (seg_start s, seg_end s)) segs)"
      by (rule imageI[of s "set segs" "\<lambda>s. (seg_start s, seg_end s)", simplified set_map[symmetric]])
    then show ?thesis
      unfolding bounds by auto
  qed
  have each: "sliceAudio64 rnd ctx ab (seg_start s) (seg_end s) = Inr (blob s) \<and>
       0 \<le> seg_start s \<and> seg_start s + 1 / 10 - 1 / 2 ^ 50 \<le> seg_end s \<and>
       seg_end s \<le> duration asset"
    if "s \<in> set segs" for s
  proof -
    from kept[OF that] pairs_within[OF srt, of "seg_start s" "seg_end s"] hd_last
    have "0 \<le> seg_start s" "seg_end s \<le> duration asset"
      by (auto simp: pairs_def)
    moreover from kept[OF that] guard[of "seg_end s - seg_start s"]
    have "seg_start s + 1 / 10 - 1 / 2 ^ 50 \<le> seg_end s"
      by auto
    ultimately show ?thesis
      using blobs that by simp
  qed
  have "sorted_wrt (\<lambda>p q. snd p \<le> fst q) (filter (\<lambda>(a, b). \<not> rnd (b - a) < rnd (1 / 10)) pairs)"
    unfolding pairs_def by (rule sorted_wrt_filter) (rule pairs_chain[OF srt])
  then have "sorted_wrt (\<lambda>p q. snd p \<le> fst q) (map (\<lambda>s. (seg_start s, seg_end s)) segs)"
    by (simp only: bounds)
  then have asc: "sorted_wrt (\<lambda>s s'. seg_end s \<le> seg_start s') segs"
    by (simp add: sorted_wrt_map)
  have cover: "(\<exists>s \<in> set segs. seg_start s \<le> t \<and> t \<le> seg_end s) \<or>
       (\<exists>(a, b) \<in> set pairs. rnd (b - a) < rnd (1 / 10) \<and> a \<le> t \<and> t \<le> b)"
    if "0 \<le> t \<and> t \<le> duration asset" for t
  proof -
    from pairs_cover[OF srt hd_last(3), of t] that hd_last obtain a b where
      ab: "(a, b) \<in> set pairs" "a \<le> t" "t \<le> b"
      unfolding pairs_def by auto
    show ?thesis
    proof (cases "rnd (b - a) < rnd (1 / 10)")
      case True
      with ab show ?thesis by auto
    next
      case False
      with ab(1) have "(a, b) \<in> set (map (\<lambda>s. (seg_start s, seg_end s)) segs)"
        unfolding bounds by simp
      then obtain s where "s \<in> set segs" "seg_start s = a" "seg_end s = b"
        by auto
      with ab show ?thesis by auto
    qed
  qed
  have single: "if rnd (duration asset - 0) < rnd (1 / 10) then segs = []
        else \<exists>wav. segs = [\<lparr>seg_start = 0, seg_end = duration asset, blob = wav\<rparr>]"
    if "splitPoints asset = []"
  proof -
    have p: "pairs = [(0, duration asset)]"
      by (simp add: pairs_def points_def that)
    show ?thesis
    proof (cases "rnd (duration asset - 0) < rnd (1 / 10)")
      case True
      with bounds p show ?thesis by simp
    next
      case False
      with bounds p have "map (\<lambda>s. (seg_start s, seg_end s)) segs = [(0, duration asset)]"
        by simp
      then obtain s where s: "segs = [s]" "seg_start s = 0" "seg_end s = duration asset"
        by auto
      then have "s = \<lparr>seg_start = 0, seg_end = duration asset, blob = blob s\<rparr>"
        by simp
      then have "segs = [\<lparr>seg_start = 0, seg_end = duration asset, blob = blob s\<rparr>]"
        using s(1) by simp
      then have "\<exists>wav. segs = [\<lparr>seg_start = 0, seg_end = duration asset, blob = wav\<rparr>]"
        by (rule exI)
      with False show ?thesis by simp
    qed
  qed
  show ?thesis
    unfolding pairs_eq using gen bounds guard each asc cover single
    by (intro exI[of _ segs]) blast
qed

text \<open>
  The theorem at an asset of 0.5 s at 8000 Hz with the splits 0.25 s and 0.3125 s, on a
  host with the ranges every host supports: the sliver between the splits is dropped.
  The differences are exact in binary64 and the literal \<open>0.1\<close> is rounded.
\<close>

theorem generateSegments_boundaries_witness:
  "\<exists>newSegments.
     generateSegments roundLiteral
       \<lparr>minSampleRate = 8000, maxSampleRate = 96000, maxChannels = 32\<rparr>
       \<lparr>asset_id = ''a'', asset_file = ''f'', name = ''n'', duration = 1 / 2, url = ''u'',
        buffer = Some \<lparr>sampleRate = 8000, buf_length = 4000,
                        channelData = [replicate 4000 (Num 0)]\<rparr>,
        splitPoints = [1 / 4, 5 / 16], segments = []\<rparr>
     = Inr \<lparr>asset_id = ''a'', asset_file = ''f'', name = ''n'', duration = 1 / 2, url = ''u'',
        buffer = Some \<lparr>sampleRate = 8000, buf_length = 4000,
                        channelData = [replicate 4000 (Num 0)]\<rparr>,
        splitPoints = [1 / 4, 5 / 16], segments = newSegments\<rparr> \<and>
     map (\<lambda>s. (seg_start s, seg_end s)) newSegments = [(0, 1 / 4), (5 / 16, 1 / 2)]"
proof -
  let ?ctx = "\<lparr>minSampleRate = 8000, maxSampleRate = 96000, maxChannels = 32\<rparr>"
  let ?B = "\<lparr>sampleRate = 8000, buf_length = 4000, channelData = [replicate 4000 (Num 0)]\<rparr>"
  let ?A = "\<lparr>asset_id = ''a'', asset_file = ''f'', name = ''n'', duration = 1 / 2, url = ''u'',
        buffer = Some ?B, splitPoints = [1 / 4, 5 / 16], segments = []\<rparr>"
  have h2: "buffer ?A = Some ?B" by simp
  have h3: "supports ?ctx ?B" by (simp add: supports_def numberOfChannels_def)
  have h4: "11 \<le> sampleRate ?B" by simp
  have h5: "sorted (0 # splitPoints ?A @ [duration ?A])" by simp
  from generateSegments_boundaries[OF rounds_roundLiteral h2 h3 h4 h5] obtain segs where
    "generateSegments roundLiteral ?ctx ?A = Inr (?A\<lparr>segments := segs\<rparr>)"
    "map (\<lambda>s. (seg_start s, seg_end s)) segs =
      filter (\<lambda>(a, b). \<not> roundLiteral (b - a) < roundLiteral (1 / 10))
        (zip (0 # splitPoints ?A @ [duration ?A]) (splitPoints ?A @ [duration ?A]))"
    by blast
  then show ?thesis
    by (intro exI[of _ segs]) (simp add: roundLiteral_def roundUp_def tenth64_def)
qed

text \<open>
  The claim as stated gives exactly one segment for an empty split list. A clip of
  0.0625 s with no split is itself a sliver: no segment is emitted.
\<close>

theorem generateSegments_short_clip:
  "generateSegments roundLiteral
     \<lparr>minSampleRate = 8000, maxSampleRate = 96000, maxChannels = 32\<rparr>
     \<lparr>asset_id = ''a'', asset_file = ''f'', name = ''n'', duration = 1 / 16, url = ''u'',
      buffer = Some \<lparr>sampleRate = 8000, buf_length = 500,
                      channelData = [replicate 500 (Num 0)]\<rparr>,
      splitPoints = [], segments = []\<rparr>
   = Inr \<lparr>asset_id = ''a'', asset_file = ''f'', name = ''n'', duration = 1 / 16, url = ''u'',
      buffer = Some \<lparr>sampleRate = 8000, buf_length = 500,
                      channelData = [replicate 500 (Num 0)]\<rparr>,
      splitPoints = [], segments = []\<rparr>"
  by (simp add: generateSegments_def roundLiteral_def roundUp_def tenth64_def)

section \<open>Properties of the split finder\<close>

subsection \<open>The scan is a fold over the complete chunks\<close>


lemma windowChunks_set:
  "0 < c \<Longrightarrow>
   x \<in> set (windowChunks c e n s) \<longleftrightarrow>
     (\<exists>k. x = s + int (k * c) \<and> x < e \<and> x + int c \<le> int n)"
proof (induction c e n s rule: windowChunks.induct)
  case (1 c e n s)
  show ?case
  proof (cases "s < e \<and> s + int c \<le> int n")
    case True
    have "(\<exists>k. x = s + int (k * c) \<and> x < e \<and> x + int c \<le> int n) \<longleftrightarrow>
        x = s \<or> (\<exists>k. x = s + int c + int (k * c) \<and> x < e \<and> x + int c \<le> int n)"
      (is "?L \<longleftrightarrow> ?R")
    proof
      assume ?L
      then obtain k where k: "x = s + int (k * c)" "x < e" "x + int c \<le> int n" by blast
      show ?R
      proof (cases k)
        case 0
        with k show ?thesis by simp
      next
        case (Suc k')
        with k have "x = s + int c + int (k' * c)" by (simp add: algebra_simps)
        with k show ?thesis by blast
      qed
    next
      assume ?R
      then show ?L
      proof
        assume "x = s"
        with True have "x = s + int (0 * c) \<and> x < e \<and> x + int c \<le> int n" by simp
        then show ?L by blast
      next
        assume "\<exists>k. x = s + int c + int (k * c) \<and> x < e \<and> x + int c \<le> int n"
        then obtain k where "x = s + int c + int (k * c)" "x < e" "x + int c \<le> int n" by blast
        then have "x = s + int (Suc k * c) \<and> x < e \<and> x + int c \<le> int n"
          by (simp add: algebra_simps)
        then show ?L by blast
      qed
    qed
    moreover have "windowChunks c e n s = s # windowChunks c e n (s + int c)"
      using True 1(2) by (subst windowChunks.simps) simp
    ultimately show ?thesis
      using 1 True by simp
  next
    case False
    have "\<not> (\<exists>k. x = s + int (k * c) \<and> x < e \<and> x + int c \<le> int n)"
    proof
      assume "\<exists>k. x = s + int (k * c) \<and> x < e \<and> x + int c \<le> int n"
      then obtain k where "x = s + int (k * c)" "x < e" "x + int c \<le> int n" by blast
      moreover have "s \<le> s + int (k * c)" by simp
      ultimately show False using False by linarith
    qed
    moreover have "windowChunks c e n s = []"
      using False by (subst windowChunks.simps) simp
    ultimately show ?thesis
      by simp
  qed
qed

lemma windowChunks_lower: "x \<in> set (windowChunks c e n s) \<Longrightarrow> s \<le> x"
proof (induction c e n s rule: windowChunks.induct)
  case (1 c e n s)
  from "1.prems" have guard: "0 < c \<and> s < e \<and> s + int c \<le> int n"
    by (subst (asm) windowChunks.simps) (auto split: if_splits)
  with "1.prems" have "x = s \<or> x \<in> set (windowChunks c e n (s + int c))"
    by (subst (asm) windowChunks.simps) simp
  with "1.IH" guard show ?case by fastforce
qed



subsection \<open>The energy of a chunk inside the buffer\<close>


subsection \<open>The candidate of one round\<close>









section \<open>Properties of the split finder in binary64\<close>

subsection \<open>The scan and the candidate of one round\<close>

lemma scanChunks64_fold:
  "0 < c \<Longrightarrow> n = length buf \<Longrightarrow>
   scanChunks64 rnd buf rate c e s st =
     Some (foldl (\<lambda>st s. probe64 rnd buf rate c s st) st (windowChunks c e n s))"
proof (induction c e n s arbitrary: st rule: windowChunks.induct)
  case (1 c e n s)
  show ?case
  proof (cases "s < e \<and> s + int c \<le> int n")
    case True
    with 1 show ?thesis
      by (subst scanChunks64.simps, subst windowChunks.simps) simp
  next
    case False
    with 1 show ?thesis
      by (subst scanChunks64.simps, subst windowChunks.simps) auto
  qed
qed

lemma fold_probe64_time:
  "snd (foldl (\<lambda>st s. probe64 rnd buf rate c s st) st xs) = snd st \<or>
   (\<exists>s \<in> set xs. snd (foldl (\<lambda>st s. probe64 rnd buf rate c s st) st xs)
      = rnd (real_of_int s / real rate))"
proof (induction xs arbitrary: st)
  case Nil
  then show ?case by simp
next
  case (Cons x xs)
  have p: "probe64 rnd buf rate c x st = st \<or>
      snd (probe64 rnd buf rate c x st) = rnd (real_of_int x / real rate)"
    by (auto simp: probe64_def Let_def split: number.splits)
  from Cons[of "probe64 rnd buf rate c x st"] p show ?case
    by auto
qed

lemma rounds_seconds:
  assumes "rounds rnd" and "0 \<le> x" and "x \<le> 1048576"
  shows "x - 1 / 8589934592 \<le> rnd x" and "rnd x \<le> x + 1 / 8589934592"
  using rounds_time[OF assms(1), of x] assms(2,3) by simp_all

lemma rounds_samples:
  assumes "rounds rnd" and "0 \<le> x" and "x \<le> 1099511627776"
  shows "x - 1 / 8192 \<le> rnd x" and "rnd x \<le> x + 1 / 8192"
  using rounds_index[OF assms(1), of x] assms(2,3) by simp_all

lemma chunkSize64_pos:
  assumes "rounds rnd" and "11 \<le> rate"
  shows "0 < nat \<lfloor>rnd (rnd (1 / 10) * real rate)\<rfloor>"
proof -
  have t: "1 / 10 - 1 / 8589934592 \<le> rnd (1 / 10)"
    by (rule rounds_seconds[OF assms(1)]) simp_all
  have "(11 :: real) \<le> real rate"
    using assms(2) by simp
  with t have "(1 / 10 - 1 / 8589934592) * 11 \<le> rnd (1 / 10) * real rate"
    by (intro mult_mono) simp_all
  then have "109 / 100 \<le> rnd (1 / 10) * real rate"
    by simp
  then have "rnd (109 / 100) \<le> rnd (rnd (1 / 10) * real rate)"
    by (rule rounds_mono[OF assms(1)])
  moreover have "109 / 100 - 1 / 8589934592 \<le> rnd (109 / 100)"
    by (rule rounds_seconds[OF assms(1)]) simp_all
  ultimately have "1 \<le> rnd (rnd (1 / 10) * real rate)"
    by linarith
  then have "1 \<le> \<lfloor>rnd (rnd (1 / 10) * real rate)\<rfloor>"
    by (simp add: le_floor_iff)
  then show ?thesis by simp
qed

lemma findBest64_fold:
  assumes "rounds rnd" and "11 \<le> rate"
  shows "findBest64 rnd buf rate maxDur searchWindow currentPos =
    Some (snd (foldl (\<lambda>st s. probe64 rnd buf rate (nat \<lfloor>rnd (rnd (1 / 10) * real rate)\<rfloor>) s st)
      (None, rnd (currentPos + maxDur))
      (windowChunks (nat \<lfloor>rnd (rnd (1 / 10) * real rate)\<rfloor>)
         \<lfloor>rnd (rnd (currentPos + maxDur) * real rate)\<rfloor>
         (length buf)
         \<lfloor>rnd (max (rnd (currentPos + 1)) (rnd (rnd (currentPos + maxDur) - searchWindow))
               * real rate)\<rfloor>)))"
  unfolding findBest64_def Let_def
  by (simp only: scanChunks64_fold[OF chunkSize64_pos[OF assms] refl] option.map)

lemma findBest64_range:
  assumes "rounds rnd" and "11 \<le> rate"
  shows "\<exists>bestTime. findBest64 rnd buf rate maxDur searchWindow currentPos = Some bestTime \<and>
    (bestTime = rnd (currentPos + maxDur) \<or>
     (\<exists>s :: int. bestTime = rnd (real_of_int s / real rate) \<and>
        \<lfloor>rnd (max (rnd (currentPos + 1)) (rnd (rnd (currentPos + maxDur) - searchWindow))
              * real rate)\<rfloor> \<le> s \<and>
        s < \<lfloor>rnd (rnd (currentPos + maxDur) * real rate)\<rfloor>))"
proof -
  let ?c = "nat \<lfloor>rnd (rnd (1 / 10) * real rate)\<rfloor>"
  let ?S = "\<lfloor>rnd (max (rnd (currentPos + 1)) (rnd (rnd (currentPos + maxDur) - searchWindow))
              * real rate)\<rfloor>"
  let ?E = "\<lfloor>rnd (rnd (currentPos + maxDur) * real rate)\<rfloor>"
  let ?xs = "windowChunks ?c ?E (length buf) ?S"
  let ?best = "snd (foldl (\<lambda>st s. probe64 rnd buf rate ?c s st)
      (None, rnd (currentPos + maxDur)) ?xs)"
  have fb: "findBest64 rnd buf rate maxDur searchWindow currentPos = Some ?best"
    by (rule findBest64_fold[OF assms])
  have "?best = rnd (currentPos + maxDur) \<or>
      (\<exists>s \<in> set ?xs. ?best = rnd (real_of_int s / real rate))"
    using fold_probe64_time[of rnd buf rate ?c "(None, rnd (currentPos + maxDur))" ?xs] by simp
  then show ?thesis
  proof
    assume "?best = rnd (currentPos + maxDur)"
    with fb show ?thesis by simp
  next
    assume "\<exists>s \<in> set ?xs. ?best = rnd (real_of_int s / real rate)"
    then obtain s where s: "s \<in> set ?xs" "?best = rnd (real_of_int s / real rate)"
      by blast
    from s(1) have lo: "?S \<le> s"
      by (rule windowChunks_lower)
    from s(1) have "s < ?E"
      using windowChunks_set[OF chunkSize64_pos[OF assms], of s ?E "length buf" ?S] by blast
    with fb s(2) lo show ?thesis
      by (intro exI[of _ ?best]) blast
  qed
qed

lemma splitLoop64_stop:
  "\<not> rnd (currentPos + maxDur) < totalDuration \<Longrightarrow>
   splitLoop64 rnd buf rate totalDuration maxDur searchWindow currentPos newSplits
     = Some newSplits"
  by (subst splitLoop64.simps) simp

lemma splitLoop64_step:
  "rnd (currentPos + maxDur) < totalDuration \<Longrightarrow>
   findBest64 rnd buf rate maxDur searchWindow currentPos = Some bestTime \<Longrightarrow>
   splitLoop64 rnd buf rate totalDuration maxDur searchWindow currentPos newSplits =
     splitLoop64 rnd buf rate totalDuration maxDur searchWindow bestTime (newSplits @ [bestTime])"
  by (subst splitLoop64.simps) simp

subsection \<open>The advance of the cursor\<close>

lemma cursorStep64_advance:
  fixes rnd :: "real \<Rightarrow> real" and rate :: nat and T m p x :: real
  assumes r: "rounds rnd" and rate: "11 \<le> rate" "rate \<le> 2 ^ 20"
    and m: "1 / 2 ^ 30 \<le> m" and T: "T + m + 2 \<le> 2 ^ 20" and p: "0 \<le> p"
    and step: "cursorStep64 rnd rate T m (min 5 (rnd (m / 2))) p x"
  shows "p + min (m / 2) (1 / 2) \<le> x" and "x < T"
    and "x = rnd (p + m) \<or> p + 1 - 1 / real rate - 1 / 2 ^ 16 < x"
    and "m \<le> 1 \<longrightarrow> x = rnd (p + m)"
    and "3 \<le> m \<longrightarrow> p + 1 \<le> x"
    and "\<bar>rnd (p + m) - (p + m)\<bar> \<le> 1 / 2 ^ 33"
proof -
  define E where "E = rnd (p + m)"
  define A where "A = rnd (p + 1)"
  define h where "h = rnd (m / 2)"
  define w where "w = min 5 h"
  define B where "B = rnd (E - w)"
  define start where "start = max A B"
  define u where "u = 1 / real rate"
  define Rs where "Rs = rnd (start * real rate)"
  define Re where "Re = rnd (E * real rate)"
  have m': "1 / 1073741824 \<le> m"
    using m by simp
  have T': "T + m + 2 \<le> 1048576"
    using T by simp
  have rpos: "0 < real rate" "11 \<le> real rate" "real rate \<le> 1048576"
  proof -
    show "0 < real rate" "11 \<le> real rate"
      using rate(1) by simp_all
    have "real rate \<le> real (2 ^ 20)"
      using rate(2) by (simp only: of_nat_le_iff)
    then show "real rate \<le> 1048576"
      by simp
  qed
  have u: "0 < u" "u \<le> 1 / 11" "1 / 1048576 \<le> u" "real rate * u = 1"
    using rpos by (simp_all add: u_def field_simps)
  from step have ET: "E < T"
    by (simp add: cursorStep64_def E_def)
  have pm: "p + m \<le> 1048575"
  proof (rule ccontr)
    assume "\<not> p + m \<le> 1048575"
    then have "rnd 1048575 \<le> E"
      unfolding E_def by (intro rounds_mono[OF r]) simp
    moreover have "1048575 - 1 / 8589934592 \<le> rnd 1048575"
      by (rule rounds_seconds[OF r]) simp_all
    ultimately show False
      using ET T' m' by linarith
  qed
  have E: "p + m - 1 / 8589934592 \<le> E" "E \<le> p + m + 1 / 8589934592"
    unfolding E_def using p m' pm by (intro rounds_seconds[OF r]; linarith)+
  have A: "p + 1 - 1 / 8589934592 \<le> A" "A \<le> p + 1 + 1 / 8589934592"
    unfolding A_def using p m' pm by (intro rounds_seconds[OF r]; linarith)+
  have h: "m / 2 - 1 / 8589934592 \<le> h" "h \<le> m / 2 + 1 / 8589934592"
    unfolding h_def using p m' pm by (intro rounds_seconds[OF r]; linarith)+
  have w: "0 \<le> w" "w \<le> m / 2 + 1 / 8589934592"
    using h m' by (simp_all add: w_def)
  have B: "E - w - 1 / 8589934592 \<le> B" "B \<le> E - w + 1 / 8589934592"
    unfolding B_def using E w p m' pm by (intro rounds_seconds[OF r]; linarith)+
  have start: "A \<le> start" "B \<le> start" "start \<le> 1048576" "0 \<le> start"
    using A B E w p m' pm by (simp_all add: start_def)
  have sr: "0 \<le> start * real rate" "start * real rate \<le> 1099511627776"
  proof -
    show "0 \<le> start * real rate"
      using start(4) rpos(1) by simp
    have "start * real rate \<le> 1048576 * 1048576"
      using start(3,4) rpos by (intro mult_mono) simp_all
    then show "start * real rate \<le> 1099511627776"
      by simp
  qed
  have Rs: "start * real rate - 1 / 8192 \<le> Rs"
    unfolding Rs_def by (rule rounds_samples(1)[OF r sr])
  have E0: "0 \<le> E" "E \<le> 1048576"
    using E p m' pm by linarith+
  have er: "0 \<le> E * real rate" "E * real rate \<le> 1099511627776"
  proof -
    show "0 \<le> E * real rate"
      using E0(1) rpos(1) by simp
    have "E * real rate \<le> 1048576 * 1048576"
      using E0 rpos by (intro mult_mono) simp_all
    then show "E * real rate \<le> 1099511627776"
      by simp
  qed
  have Re: "Re \<le> E * real rate + 1 / 8192"
    unfolding Re_def by (rule rounds_samples(2)[OF r er])
  from step consider (default) "x = E"
    | (chunk) s :: int where "x = rnd (real_of_int s / real rate)" "\<lfloor>Rs\<rfloor> \<le> s" "s < \<lfloor>Re\<rfloor>"
    unfolding cursorStep64_def E_def Rs_def Re_def start_def A_def B_def w_def h_def by blast
  then have "p + min (m / 2) (1 / 2) \<le> x \<and> x < T \<and>
      (x = E \<or> p + 1 - u - 1 / 65536 < x) \<and> (m \<le> 1 \<longrightarrow> x = E) \<and> (3 \<le> m \<longrightarrow> p + 1 \<le> x)"
  proof cases
    case default
    have "p + m / 2 \<le> E"
      using E(1) m' by linarith
    then have "p + min (m / 2) (1 / 2) \<le> E"
      by linarith
    moreover have "p + 1 \<le> E" if "3 \<le> m"
      using E(1) that by linarith
    ultimately show ?thesis
      using ET default by simp
  next
    case chunk
    define q where "q = real_of_int s / real rate"
    have "Rs - 1 < real_of_int \<lfloor>Rs\<rfloor>"
      by linarith
    also have "\<dots> \<le> real_of_int s"
      using chunk(2) by simp
    finally have lo: "start * real rate - 8193 / 8192 < real_of_int s"
      using Rs by linarith
    have "real_of_int s + 1 \<le> real_of_int \<lfloor>Re\<rfloor>"
      using chunk(3) by linarith
    also have "\<dots> \<le> Re"
      by simp
    finally have hi: "real_of_int s \<le> E * real rate - 8191 / 8192"
      using Re by linarith
    have qs: "q = real_of_int s * u"
      by (simp add: q_def u_def)
    have "(start * real rate - 8193 / 8192) * u < real_of_int s * u"
      using lo u(1) by (rule mult_strict_right_mono)
    moreover have "(start * real rate - 8193 / 8192) * u = start - 8193 / 8192 * u"
      using u(4) by (simp add: algebra_simps)
    ultimately have qlo: "start - 8193 / 8192 * u < q"
      by (simp add: qs)
    have "real_of_int s * u \<le> (E * real rate - 8191 / 8192) * u"
      using hi u(1) by (intro mult_right_mono) simp_all
    moreover have "(E * real rate - 8191 / 8192) * u = E - 8191 / 8192 * u"
      using u(4) by (simp add: algebra_simps)
    ultimately have qhi: "q \<le> E - 8191 / 8192 * u"
      by (simp add: qs)
    have q0: "0 \<le> q" "q \<le> 1048576"
      using qlo qhi start(1) A(1) p u E0 by linarith+
    have x: "q - 1 / 8589934592 \<le> x" "x \<le> q + 1 / 8589934592"
      unfolding chunk(1) q_def[symmetric] by (rule rounds_seconds[OF r q0])+
    have adv: "p + 1 / 2 < x"
      using x(1) qlo start(1) A(1) u(2) by linarith
    then have "p + min (m / 2) (1 / 2) \<le> x"
      by linarith
    moreover have "x < T"
      using x(2) qhi u(3) ET by linarith
    moreover have "p + 1 - u - 1 / 65536 < x"
      using x(1) qlo start(1) A(1) u(2) by linarith
    moreover have "\<not> m \<le> 1"
    proof
      assume "m \<le> 1"
      then have "E \<le> A"
        unfolding E_def A_def by (intro rounds_mono[OF r]) simp
      with start(1) have "E \<le> start"
        by linarith
      then have "E * real rate \<le> start * real rate"
        using rpos(1) by (intro mult_right_mono) simp_all
      then have "Re \<le> Rs"
        unfolding Re_def Rs_def by (rule rounds_mono[OF r])
      then have "\<lfloor>Re\<rfloor> \<le> \<lfloor>Rs\<rfloor>"
        by (rule floor_mono)
      with chunk(2,3) show False
        by linarith
    qed
    moreover have "p + 1 \<le> x" if "3 \<le> m"
      using x(1) qlo start(2) B(1) E(1) w(2) u(2) that by linarith
    ultimately show ?thesis
      by simp
  qed
  then show "p + min (m / 2) (1 / 2) \<le> x" and "x < T"
    and "x = rnd (p + m) \<or> p + 1 - 1 / real rate - 1 / 2 ^ 16 < x"
    and "m \<le> 1 \<longrightarrow> x = rnd (p + m)" and "3 \<le> m \<longrightarrow> p + 1 \<le> x"
    by (simp_all add: E_def u_def)
  from E have "\<bar>E - (p + m)\<bar> \<le> 1 / 8589934592"
    by linarith
  then show "\<bar>rnd (p + m) - (p + m)\<bar> \<le> 1 / 2 ^ 33"
    by (simp add: E_def)
qed

subsection \<open>Termination\<close>

lemma splitLoop64_terminates:
  fixes rnd :: "real \<Rightarrow> real" and rate :: nat and T m :: real
  assumes r: "rounds rnd" and rate: "11 \<le> rate" "rate \<le> 2 ^ 20"
    and m: "1 / 2 ^ 30 \<le> m" and T: "T + m + 2 \<le> 2 ^ 20"
  defines "w \<equiv> min 5 (rnd (m / 2))"
  shows "0 \<le> p \<Longrightarrow> T - p \<le> real n * min (m / 2) (1 / 2) \<Longrightarrow>
    \<exists>new. splitLoop64 rnd buf rate T m w p newSplits = Some (newSplits @ new) \<and>
      successively (\<lambda>p x. 0 \<le> p \<and> cursorStep64 rnd rate T m w p x) (p # new)"
proof (induction n arbitrary: p newSplits)
  case 0
  have "\<not> rnd (p + m) < T"
  proof
    assume lt: "rnd (p + m) < T"
    then have "cursorStep64 rnd rate T m w p (rnd (p + m))"
      by (simp add: cursorStep64_def)
    from cursorStep64_advance(1,2)[OF r rate m T "0.prems"(1) this[unfolded w_def]] "0.prems"(2) m
    show False by simp
  qed
  then have "splitLoop64 rnd buf rate T m w p newSplits = Some newSplits"
    by (rule splitLoop64_stop)
  then show ?case
    by (intro exI[of _ "[]"]) simp
next
  case (Suc n)
  show ?case
  proof (cases "rnd (p + m) < T")
    case False
    then have "splitLoop64 rnd buf rate T m w p newSplits = Some newSplits"
      by (rule splitLoop64_stop)
    then show ?thesis
      by (intro exI[of _ "[]"]) simp
  next
    case True
    from findBest64_range[OF r rate(1), of buf m w p] obtain bestTime where
      fb: "findBest64 rnd buf rate m w p = Some bestTime"
      and rng: "bestTime = rnd (p + m) \<or>
        (\<exists>s :: int. bestTime = rnd (real_of_int s / real rate) \<and>
          \<lfloor>rnd (max (rnd (p + 1)) (rnd (rnd (p + m) - w)) * real rate)\<rfloor> \<le> s \<and>
          s < \<lfloor>rnd (rnd (p + m) * real rate)\<rfloor>)"
      by blast
    from True rng have st: "cursorStep64 rnd rate T m w p bestTime"
      by (simp add: cursorStep64_def)
    from cursorStep64_advance(1)[OF r rate m T Suc.prems(1) st[unfolded w_def]]
    have adv: "p + min (m / 2) (1 / 2) \<le> bestTime" .
    have dpos: "0 < min (m / 2) (1 / 2)"
      using m by simp
    from adv dpos Suc.prems(1) have b0: "0 \<le> bestTime"
      by linarith
    from adv Suc.prems(2) have "T - bestTime \<le> real n * min (m / 2) (1 / 2)"
      by (simp add: algebra_simps)
    from Suc.IH[OF b0 this, of "newSplits @ [bestTime]"] obtain new where
      new: "splitLoop64 rnd buf rate T m w bestTime (newSplits @ [bestTime])
          = Some ((newSplits @ [bestTime]) @ new)"
        "successively (\<lambda>p x. 0 \<le> p \<and> cursorStep64 rnd rate T m w p x) (bestTime # new)"
      by blast
    have "splitLoop64 rnd buf rate T m w p newSplits = Some (newSplits @ bestTime # new)"
      using splitLoop64_step[OF True fb, of newSplits] new(1) by simp
    with st new(2) Suc.prems(1) show ?thesis
      by (intro exI[of _ "bestTime # new"]) simp
  qed
qed

lemma findSplits64_chain:
  fixes rnd :: "real \<Rightarrow> real" and rate :: nat and T m :: real
  assumes r: "rounds rnd" and rate: "11 \<le> rate" "rate \<le> 2 ^ 20"
    and m: "1 / 2 ^ 30 \<le> m" and T: "T + m + 2 \<le> 2 ^ 20"
  shows "\<exists>splits. findSplits64 rnd buf rate T m = Some splits \<and>
      successively (\<lambda>p x. 0 \<le> p \<and> cursorStep64 rnd rate T m (min 5 (rnd (m / 2))) p x)
        (0 # splits)"
proof -
  define d where "d = min (m / 2) (1 / 2)"
  have dpos: "0 < d" using m by (simp add: d_def)
  define n where "n = nat \<lceil>T / d\<rceil>"
  have "T / d \<le> real n"
    unfolding n_def by linarith
  then have "T - 0 \<le> real n * d"
    using dpos by (simp add: field_simps)
  then have "T - 0 \<le> real n * min (m / 2) (1 / 2)"
    by (simp only: d_def)
  from splitLoop64_terminates[OF r rate m T, where p = 0 and n = n and buf = buf
      and newSplits = "[]", OF _ this]
  show ?thesis
    by (simp add: findSplits64_def)
qed


lemma successively_pred:
  "successively R (c # xs) \<Longrightarrow> x \<in> set xs \<Longrightarrow> \<exists>p. R p x"
proof (induction xs arbitrary: c)
  case Nil
  then show ?case by simp
next
  case (Cons y ys)
  then show ?case by auto
qed

lemma findSplits64_ascending:
  fixes rnd :: "real \<Rightarrow> real" and rate :: nat and T m :: real
  assumes r: "rounds rnd" and rate: "11 \<le> rate" "rate \<le> 2 ^ 20"
    and m: "1 / 2 ^ 30 \<le> m" and T: "T + m + 2 \<le> 2 ^ 20"
  shows "\<exists>splits. findSplits64 rnd buf rate T m = Some splits \<and>
    sorted_wrt (<) splits \<and> (\<forall>t \<in> set splits. 0 < t \<and> t < T)"
proof -
  let ?R = "\<lambda>p x. 0 \<le> p \<and> cursorStep64 rnd rate T m (min 5 (rnd (m / 2))) p x"
  note adv = cursorStep64_advance[OF r rate m T]
  from findSplits64_chain[OF r rate m T, of buf] obtain splits where
    fs: "findSplits64 rnd buf rate T m = Some splits"
    and chain: "successively ?R (0 # splits)"
    by blast
  have dpos: "0 < min (m / 2) (1 / 2)"
    using m by simp
  have "successively (<) (0 # splits)"
  proof (rule successively_mono[OF chain])
    fix p x assume "?R p x"
    with adv(1)[of p x] dpos show "p < x" by linarith
  qed
  then have "sorted_wrt (<) (0 # splits)"
    by (simp add: successively_conv_sorted_wrt)
  then have inc: "sorted_wrt (<) splits" and pos: "\<forall>t \<in> set splits. 0 < t"
    by simp_all
  have below: "t < T" if "t \<in> set splits" for t
  proof -
    from successively_pred[OF chain that] obtain p where "?R p t" by blast
    with adv(2)[of p t] show ?thesis by simp
  qed
  from fs inc pos below show ?thesis
    by blast
qed

lemma splitLoop64_total:
  fixes rnd :: "real \<Rightarrow> real" and rate :: nat and T m :: real
  assumes r: "rounds rnd" and rate: "11 \<le> rate" "rate \<le> 2 ^ 20"
    and m: "1 / 2 ^ 30 \<le> m" and T: "T + m + 2 \<le> 2 ^ 20" and p: "0 \<le> p"
  shows "\<exists>new. splitLoop64 rnd buf rate T m (min 5 (rnd (m / 2))) p newSplits
      = Some (newSplits @ new)"
proof -
  define d where "d = min (m / 2) (1 / 2)"
  have dpos: "0 < d" using m by (simp add: d_def)
  define n where "n = nat \<lceil>(T - p) / d\<rceil>"
  have "(T - p) / d \<le> real n"
    unfolding n_def by linarith
  then have "T - p \<le> real n * d"
    using dpos by (simp add: field_simps)
  then have "T - p \<le> real n * min (m / 2) (1 / 2)"
    by (simp only: d_def)
  from splitLoop64_terminates[OF r rate m T p this, of buf newSplits] show ?thesis
    by blast
qed

lemma findSplits64_nonempty:
  fixes rnd :: "real \<Rightarrow> real" and rate :: nat and T m :: real
  assumes r: "rounds rnd" and rate: "11 \<le> rate" "rate \<le> 2 ^ 20"
    and m: "1 / 2 ^ 30 \<le> m" and T: "T + m + 2 \<le> 2 ^ 20"
    and "rnd m = m" and "m < T" and "findSplits64 rnd buf rate T m = Some splits"
  shows "splits \<noteq> []"
proof -
  let ?w = "min 5 (rnd (m / 2))"
  from findBest64_range[OF r rate(1), of buf m ?w 0] obtain bestTime where
    fb: "findBest64 rnd buf rate m ?w 0 = Some bestTime"
    and rng: "bestTime = rnd (0 + m) \<or>
        (\<exists>s :: int. bestTime = rnd (real_of_int s / real rate) \<and>
          \<lfloor>rnd (max (rnd (0 + 1)) (rnd (rnd (0 + m) - ?w)) * real rate)\<rfloor> \<le> s \<and>
          s < \<lfloor>rnd (rnd (0 + m) * real rate)\<rfloor>)"
    by blast
  have run: "rnd (0 + m) < T"
    using assms(6,7) by simp
  with rng have "cursorStep64 rnd rate T m ?w 0 bestTime"
    by (simp add: cursorStep64_def)
  from cursorStep64_advance(1)[OF r rate m T _ this] m have "0 \<le> bestTime"
    by simp
  from splitLoop64_total[OF r rate m T this, of buf "[bestTime]"]
  obtain new where "splitLoop64 rnd buf rate T m ?w bestTime [bestTime] = Some ([bestTime] @ new)"
    by blast
  with splitLoop64_step[OF run fb, of "[]"]
  have "findSplits64 rnd buf rate T m = Some (bestTime # new)"
    by (simp add: findSplits64_def)
  with assms(8) have "splits = bestTime # new" by simp
  then show ?thesis by simp
qed

text \<open>
  C3. In binary64, on a buffer sampled at 11 Hz to \<open>2 ^ 20\<close> Hz, for a binary64 number
  \<open>maxDur \<ge> 2 ^ -30\<close> and \<open>totalDuration + maxDur + 2 \<le> 2 ^ 20\<close>, the split finder
  terminates. It returns no split when \<open>maxDur \<ge> totalDuration\<close> and at least one
  otherwise; the splits are strictly increasing and lie strictly between \<open>0\<close> and
  \<open>totalDuration\<close>; each split is the sum of the previous cursor and \<open>maxDur\<close>, rounded
  by at most \<open>2 ^ -33\<close>, or is more than \<open>1 - 1 / sampleRate - 2 ^ -16\<close> seconds after the
  cursor; for \<open>maxDur \<le> 1\<close> every split is that sum; and for \<open>maxDur \<ge> 3\<close> every split
  is at least one second after the previous cursor.
\<close>

theorem findSplits64_terminates:
  fixes rnd :: "real \<Rightarrow> real" and rate :: nat and totalDuration maxDur :: real
  assumes "rounds rnd" and "rnd maxDur = maxDur"
    and "11 \<le> rate" and "rate \<le> 2 ^ 20"
    and "1 / 2 ^ 30 \<le> maxDur" and "totalDuration + maxDur + 2 \<le> 2 ^ 20"
  shows "\<exists>splits.
    findSplits64 rnd buf rate totalDuration maxDur = Some splits \<and>
    (totalDuration \<le> maxDur \<longrightarrow> splits = []) \<and>
    (maxDur < totalDuration \<longrightarrow> splits \<noteq> []) \<and>
    sorted_wrt (<) splits \<and>
    (\<forall>t \<in> set splits. 0 < t \<and> t < totalDuration) \<and>
    successively
      (\<lambda>p x. (x = rnd (p + maxDur) \<and> \<bar>x - (p + maxDur)\<bar> \<le> 1 / 2 ^ 33) \<or>
             p + 1 - 1 / real rate - 1 / 2 ^ 16 < x) (0 # splits) \<and>
    (maxDur \<le> 1 \<longrightarrow>
       successively (\<lambda>p x. x = rnd (p + maxDur) \<and> \<bar>x - (p + maxDur)\<bar> \<le> 1 / 2 ^ 33)
         (0 # splits)) \<and>
    (3 \<le> maxDur \<longrightarrow> successively (\<lambda>p x. p + 1 \<le> x) (0 # splits))"
proof -
  let ?w = "min 5 (rnd (maxDur / 2))"
  let ?R = "\<lambda>p x. 0 \<le> p \<and> cursorStep64 rnd rate totalDuration maxDur ?w p x"
  note adv = cursorStep64_advance[OF assms(1,3,4,5,6)]
  from findSplits64_chain[OF assms(1,3,4,5,6), of buf] obtain splits where
    fs: "findSplits64 rnd buf rate totalDuration maxDur = Some splits"
    and chain: "successively ?R (0 # splits)"
    by blast
  have empty: "splits = []" if "totalDuration \<le> maxDur"
  proof (cases splits)
    case Nil
    then show ?thesis .
  next
    case (Cons x xs)
    with chain have "rnd (0 + maxDur) < totalDuration"
      by (simp add: cursorStep64_def)
    with that assms(2) show ?thesis by simp
  qed
  have nonempty: "splits \<noteq> []" if "maxDur < totalDuration"
    by (rule findSplits64_nonempty[OF assms(1,3,4,5,6,2) that fs])
  have dpos: "0 < min (maxDur / 2) (1 / 2)"
    using assms(5) by simp
  have "successively (<) (0 # splits)"
  proof (rule successively_mono[OF chain])
    fix p x assume "?R p x"
    with adv(1)[of p x] dpos show "p < x" by linarith
  qed
  then have inc0: "sorted_wrt (<) (0 # splits)"
    by (simp add: successively_conv_sorted_wrt)
  then have inc: "sorted_wrt (<) splits" and pos: "\<forall>t \<in> set splits. 0 < t"
    by simp_all
  have below: "t < totalDuration" if "t \<in> set splits" for t
  proof -
    from successively_pred[OF chain that] obtain p where "?R p t" by blast
    with adv(2)[of p t] show ?thesis by simp
  qed
  have gaps: "successively
      (\<lambda>p x. (x = rnd (p + maxDur) \<and> \<bar>x - (p + maxDur)\<bar> \<le> 1 / 2 ^ 33) \<or>
             p + 1 - 1 / real rate - 1 / 2 ^ 16 < x) (0 # splits)"
  proof (rule successively_mono[OF chain])
    fix p x assume "?R p x"
    with adv(3)[of p x] adv(6)[of p x]
    show "(x = rnd (p + maxDur) \<and> \<bar>x - (p + maxDur)\<bar> \<le> 1 / 2 ^ 33) \<or>
        p + 1 - 1 / real rate - 1 / 2 ^ 16 < x"
      by auto
  qed
  have short: "successively
      (\<lambda>p x. x = rnd (p + maxDur) \<and> \<bar>x - (p + maxDur)\<bar> \<le> 1 / 2 ^ 33) (0 # splits)"
    if "maxDur \<le> 1"
  proof (rule successively_mono[OF chain])
    fix p x assume "?R p x"
    with adv(4)[of p x] adv(6)[of p x] that
    show "x = rnd (p + maxDur) \<and> \<bar>x - (p + maxDur)\<bar> \<le> 1 / 2 ^ 33"
      by auto
  qed
  have long: "successively (\<lambda>p x. p + 1 \<le> x) (0 # splits)" if "3 \<le> maxDur"
  proof (rule successively_mono[OF chain])
    fix p x assume "?R p x"
    with adv(5)[of p x] that show "p + 1 \<le> x"
      by auto
  qed
  from fs empty nonempty inc pos below gaps short long show ?thesis
    by (intro exI[of _ splits]) blast
qed

lemma findSplits64_example:
  "findSplits64 roundLiteral
     [Num (1 / 2), Num (1 / 2), Num (1 / 2), Num (1 / 2), Num (1 / 2), Num (1 / 2), Num (1 / 2),
      Num (1 / 2), Num (1 / 2), Num (1 / 2), Num (1 / 2), Num (1 / 2), Num (1 / 2), Num (1 / 2),
      Num (1 / 2), Num (1 / 2), Num (1 / 2), Num (1 / 2), Num (1 / 2), Num (1 / 2), Num 0,
      Num (1 / 2), Num (1 / 2), Num (1 / 2), Num (1 / 2), Num (1 / 2), Num (1 / 2), Num (1 / 2),
      Num (1 / 2), Num (1 / 2), Num (1 / 2), Num (1 / 2), Num (1 / 2), Num (1 / 2), Num (1 / 2),
      Num (1 / 2), Num (1 / 2), Num (1 / 2), Num (1 / 2), Num (1 / 2), Num 0, Num (1 / 2),
      Num (1 / 2), Num (1 / 2), Num (1 / 2), Num (1 / 2), Num (1 / 2), Num (1 / 2), Num (1 / 2),
      Num (1 / 2), Num (1 / 2), Num (1 / 2), Num (1 / 2), Num (1 / 2), Num (1 / 2), Num (1 / 2)]
     16 (7 / 2) 2 = Some [5 / 4, 5 / 2]"
proof -
  let ?buf = "[Num (1 / 2), Num (1 / 2), Num (1 / 2), Num (1 / 2), Num (1 / 2), Num (1 / 2), Num (1 / 2),
      Num (1 / 2), Num (1 / 2), Num (1 / 2), Num (1 / 2), Num (1 / 2), Num (1 / 2), Num (1 / 2),
      Num (1 / 2), Num (1 / 2), Num (1 / 2), Num (1 / 2), Num (1 / 2), Num (1 / 2), Num 0,
      Num (1 / 2), Num (1 / 2), Num (1 / 2), Num (1 / 2), Num (1 / 2), Num (1 / 2), Num (1 / 2),
      Num (1 / 2), Num (1 / 2), Num (1 / 2), Num (1 / 2), Num (1 / 2), Num (1 / 2), Num (1 / 2),
      Num (1 / 2), Num (1 / 2), Num (1 / 2), Num (1 / 2), Num (1 / 2), Num 0, Num (1 / 2),
      Num (1 / 2), Num (1 / 2), Num (1 / 2), Num (1 / 2), Num (1 / 2), Num (1 / 2), Num (1 / 2),
      Num (1 / 2), Num (1 / 2), Num (1 / 2), Num (1 / 2), Num (1 / 2), Num (1 / 2), Num (1 / 2)]"
  note ev = windowChunks.simps probe64_def chunkEnergy64_def at_index_def absNum_def
    addNum64_def energyLess_def roundLiteral_def roundUp_def tenth64_def
  have w: "min 5 (roundLiteral (2 / 2)) = 1"
    by (simp add: roundLiteral_def roundUp_def tenth64_def)
  have b0: "findBest64 roundLiteral ?buf 16 2 1 0 = Some (5 / 4)"
    by (subst findBest64_fold[OF rounds_roundLiteral]) (simp_all add: ev)
  have b1: "findBest64 roundLiteral ?buf 16 2 1 (5 / 4) = Some (5 / 2)"
    by (subst findBest64_fold[OF rounds_roundLiteral]) (simp_all add: ev)
  have c0: "roundLiteral (0 + 2) < 7 / 2" and c1: "roundLiteral (5 / 4 + 2) < 7 / 2"
    and c2: "\<not> roundLiteral (5 / 2 + 2) < 7 / 2"
    by (simp_all add: roundLiteral_def roundUp_def tenth64_def)
  have "findSplits64 roundLiteral ?buf 16 (7 / 2) 2 = splitLoop64 roundLiteral ?buf 16 (7 / 2) 2 1 0 []"
    by (simp only: findSplits64_def Let_def w)
  also have "\<dots> = splitLoop64 roundLiteral ?buf 16 (7 / 2) 2 1 (5 / 4) [5 / 4]"
    using splitLoop64_step[OF c0 b0, of "[]"] by simp
  also have "\<dots> = splitLoop64 roundLiteral ?buf 16 (7 / 2) 2 1 (5 / 2) [5 / 4, 5 / 2]"
    using splitLoop64_step[OF c1 b1, of "[5 / 4]"] by simp
  also have "\<dots> = Some [5 / 4, 5 / 2]"
    by (rule splitLoop64_stop) (rule c2)
  finally show ?thesis .
qed

text \<open>
  The theorem on 3.5 s of audio at 16 Hz with \<open>maxDur = 2\<close>, silent at the samples 20 and
  40: the window of the first round holds the samples 16 to 31 and that of the second
  round the samples 36 to 51, and the splits are the times of the silent samples, 1.25 s
  and 2.5 s. Every operation of this run but the literal \<open>0.1\<close> is exact in binary64.
\<close>

theorem findSplits64_terminates_witness:
  "\<exists>splits.
     findSplits64 roundLiteral
       [Num (1 / 2), Num (1 / 2), Num (1 / 2), Num (1 / 2), Num (1 / 2), Num (1 / 2), Num (1 / 2),
        Num (1 / 2), Num (1 / 2), Num (1 / 2), Num (1 / 2), Num (1 / 2), Num (1 / 2), Num (1 / 2),
        Num (1 / 2), Num (1 / 2), Num (1 / 2), Num (1 / 2), Num (1 / 2), Num (1 / 2), Num 0,
        Num (1 / 2), Num (1 / 2), Num (1 / 2), Num (1 / 2), Num (1 / 2), Num (1 / 2), Num (1 / 2),
        Num (1 / 2), Num (1 / 2), Num (1 / 2), Num (1 / 2), Num (1 / 2), Num (1 / 2), Num (1 / 2),
        Num (1 / 2), Num (1 / 2), Num (1 / 2), Num (1 / 2), Num (1 / 2), Num 0, Num (1 / 2),
        Num (1 / 2), Num (1 / 2), Num (1 / 2), Num (1 / 2), Num (1 / 2), Num (1 / 2), Num (1 / 2),
        Num (1 / 2), Num (1 / 2), Num (1 / 2), Num (1 / 2), Num (1 / 2), Num (1 / 2), Num (1 / 2)]
       16 (7 / 2) 2 = Some splits \<and>
     splits = [5 / 4, 5 / 2] \<and> sorted_wrt (<) splits \<and>
     (\<forall>t \<in> set splits. 0 < t \<and> t < 7 / 2) \<and>
     successively (\<lambda>p x. x = roundLiteral (p + 2) \<or> p + 1 - 1 / 16 - 1 / 2 ^ 16 < x)
       (0 # splits)"
proof -
  let ?buf = "[Num (1 / 2), Num (1 / 2), Num (1 / 2), Num (1 / 2), Num (1 / 2), Num (1 / 2), Num (1 / 2),
      Num (1 / 2), Num (1 / 2), Num (1 / 2), Num (1 / 2), Num (1 / 2), Num (1 / 2), Num (1 / 2),
      Num (1 / 2), Num (1 / 2), Num (1 / 2), Num (1 / 2), Num (1 / 2), Num (1 / 2), Num 0,
      Num (1 / 2), Num (1 / 2), Num (1 / 2), Num (1 / 2), Num (1 / 2), Num (1 / 2), Num (1 / 2),
      Num (1 / 2), Num (1 / 2), Num (1 / 2), Num (1 / 2), Num (1 / 2), Num (1 / 2), Num (1 / 2),
      Num (1 / 2), Num (1 / 2), Num (1 / 2), Num (1 / 2), Num (1 / 2), Num 0, Num (1 / 2),
      Num (1 / 2), Num (1 / 2), Num (1 / 2), Num (1 / 2), Num (1 / 2), Num (1 / 2), Num (1 / 2),
      Num (1 / 2), Num (1 / 2), Num (1 / 2), Num (1 / 2), Num (1 / 2), Num (1 / 2), Num (1 / 2)]"
  have h2: "roundLiteral 2 = 2"
    by (simp add: roundLiteral_def roundUp_def tenth64_def)
  have h3: "(11 :: nat) \<le> 16" and h4: "(16 :: nat) \<le> 2 ^ 20" by simp_all
  have h5: "(1 :: real) / 2 ^ 30 \<le> 2" and h6: "(7 / 2 :: real) + 2 + 2 \<le> 2 ^ 20" by simp_all
  from findSplits64_terminates[OF rounds_roundLiteral h2 h3 h4 h5 h6, of ?buf] obtain splits where
    s: "findSplits64 roundLiteral ?buf 16 (7 / 2) 2 = Some splits" "sorted_wrt (<) splits"
      "\<forall>t \<in> set splits. 0 < t \<and> t < 7 / 2"
      "successively
        (\<lambda>p x. (x = roundLiteral (p + 2) \<and> \<bar>x - (p + 2)\<bar> \<le> 1 / 2 ^ 33) \<or>
               p + 1 - 1 / real (16 :: nat) - 1 / 2 ^ 16 < x) (0 # splits)"
    by blast
  from s(1) findSplits64_example have e: "splits = [5 / 4, 5 / 2]"
    by simp
  have "successively (\<lambda>p x. x = roundLiteral (p + 2) \<or> p + 1 - 1 / 16 - 1 / 2 ^ 16 < x)
      (0 # splits)"
    by (rule successively_mono[OF s(4)]) auto
  with s(1,2,3) e show ?thesis
    by (intro exI[of _ splits]) simp
qed

text \<open>
  The claim as stated keeps every split at least one second after the previous cursor for
  every \<open>maxDur > 0\<close>. With \<open>maxDur = 0.5\<close> the window is empty and each split is the
  default, half a second after the cursor: on 1.25 s of audio at 16 Hz the splits are
  0.5 s and 1 s. Every operation of this run but the literal \<open>0.1\<close> is exact in binary64.
\<close>

theorem findSplits64_half_second:
  "findSplits64 roundLiteral (replicate 20 (Num 0)) 16 (5 / 4) (1 / 2) = Some [1 / 2, 1] \<and>
   \<not> (0 + 1 \<le> (1 / 2 :: real))"
proof -
  let ?buf = "replicate 20 (Num 0)"
  note ev = windowChunks.simps roundLiteral_def roundUp_def tenth64_def
  have w: "min 5 (roundLiteral (1 / 2 / 2)) = 1 / 4"
    by (simp add: roundLiteral_def roundUp_def tenth64_def)
  have b0: "findBest64 roundLiteral ?buf 16 (1 / 2) (1 / 4) 0 = Some (1 / 2)"
    by (subst findBest64_fold[OF rounds_roundLiteral]) (simp_all add: ev)
  have b1: "findBest64 roundLiteral ?buf 16 (1 / 2) (1 / 4) (1 / 2) = Some 1"
    by (subst findBest64_fold[OF rounds_roundLiteral]) (simp_all add: ev)
  have c0: "roundLiteral (0 + 1 / 2) < 5 / 4" and c1: "roundLiteral (1 / 2 + 1 / 2) < 5 / 4"
    and c2: "\<not> roundLiteral (1 + 1 / 2) < 5 / 4"
    by (simp_all add: roundLiteral_def roundUp_def tenth64_def)
  have "findSplits64 roundLiteral ?buf 16 (5 / 4) (1 / 2)
      = splitLoop64 roundLiteral ?buf 16 (5 / 4) (1 / 2) (1 / 4) 0 []"
    by (simp only: findSplits64_def Let_def w)
  also have "\<dots> = splitLoop64 roundLiteral ?buf 16 (5 / 4) (1 / 2) (1 / 4) (1 / 2) [1 / 2]"
    using splitLoop64_step[OF c0 b0, of "[]"] by simp
  also have "\<dots> = splitLoop64 roundLiteral ?buf 16 (5 / 4) (1 / 2) (1 / 4) 1 [1 / 2, 1]"
    using splitLoop64_step[OF c1 b1, of "[1 / 2]"] by simp
  also have "\<dots> = Some [1 / 2, 1]"
    by (rule splitLoop64_stop) (rule c2)
  finally show ?thesis by simp
qed

section \<open>Properties of the split list operations\<close>

lemma splitInvariant_closed: "splitInvariant d ps \<Longrightarrow> splitInvariantClosed d ps"
  by (auto simp: splitInvariant_def splitInvariantClosed_def list_all_iff)

lemma addSplitPoint_closed:
  assumes "splitInvariantClosed (duration asset) (splitPoints asset)" "0 \<le> duration asset"
  shows "splitInvariantClosed (duration (addSplitPoint asset currentTime time))
           (splitPoints (addSplitPoint asset currentTime time))"
proof -
  define t where
    "t = max 0 (min (duration asset) (case time of None \<Rightarrow> currentTime | Some x \<Rightarrow> x))"
  have tr: "0 \<le> t \<and> t \<le> duration asset"
    using assms(2) by (simp add: t_def)
  show ?thesis
  proof (cases "t \<in> set (splitPoints asset)")
    case True
    then have "addSplitPoint asset currentTime time = asset"
      by (simp add: addSplitPoint_def t_def[symmetric])
    with assms(1) show ?thesis by simp
  next
    case False
    then have eq: "addSplitPoint asset currentTime time
        = asset\<lparr>splitPoints := sort (splitPoints asset @ [t])\<rparr>"
      by (simp add: addSplitPoint_def t_def[symmetric])
    from assms(1) have "distinct (splitPoints asset)" "sorted (splitPoints asset)"
      by (simp_all add: splitInvariantClosed_def strict_sorted_iff)
    with False have "sorted_wrt (<) (sort (splitPoints asset @ [t]))"
      by (simp add: strict_sorted_iff)
    moreover have "list_all (\<lambda>t. 0 \<le> t \<and> t \<le> duration asset) (sort (splitPoints asset @ [t]))"
      using assms(1) tr by (auto simp: splitInvariantClosed_def list_all_iff)
    ultimately show ?thesis
      by (simp add: eq splitInvariantClosed_def)
  qed
qed

lemma removeSplitPoint_closed:
  assumes "splitInvariantClosed (duration asset) (splitPoints asset)"
  shows "splitInvariantClosed (duration (removeSplitPoint asset point))
           (splitPoints (removeSplitPoint asset point))"
  using assms
  by (auto simp: removeSplitPoint_def splitInvariantClosed_def list_all_iff sorted_wrt_filter)

lemma removeSplitPoint_open:
  assumes "splitInvariant (duration asset) (splitPoints asset)"
  shows "splitInvariant (duration (removeSplitPoint asset point))
           (splitPoints (removeSplitPoint asset point))"
  using assms
  by (auto simp: removeSplitPoint_def splitInvariant_def list_all_iff sorted_wrt_filter)

lemma adjustSplitPoint_within:
  assumes "list_all (\<lambda>t. 0 \<le> t \<and> t \<le> duration asset) (splitPoints asset)" "0 \<le> duration asset"
  shows "sorted (splitPoints (adjustSplitPoint rnd asset point delta)) \<and>
         list_all (\<lambda>t. 0 \<le> t \<and> t \<le> duration (adjustSplitPoint rnd asset point delta))
           (splitPoints (adjustSplitPoint rnd asset point delta))"
  using assms by (auto simp: adjustSplitPoint_def Let_def list_all_iff)

lemma autoDetectSplits_result:
  assumes "buffer asset = Some ab" and "channelData ab = buf # others"
    and "rounds rnd" and "11 \<le> sampleRate ab" and "sampleRate ab \<le> 2 ^ 20"
    and "1 / 2 ^ 30 \<le> maxSegmentDuration config"
    and "duration asset + maxSegmentDuration config + 2 \<le> 2 ^ 20"
  shows "\<exists>newSplits.
    findSplits64 rnd buf (sampleRate ab) (duration asset) (maxSegmentDuration config)
      = Some newSplits \<and>
    autoDetectSplits rnd asset config = Some (asset\<lparr>splitPoints := newSplits, segments := []\<rparr>) \<and>
    splitInvariant (duration asset) newSplits"
proof -
  from findSplits64_ascending[OF assms(3-7), of buf] obtain splits where
    fs: "findSplits64 rnd buf (sampleRate ab) (duration asset) (maxSegmentDuration config)
          = Some splits"
    and inc: "sorted_wrt (<) splits" and rng: "\<forall>t \<in> set splits. 0 < t \<and> t < duration asset"
    by blast
  from inc rng have "splitInvariant (duration asset) splits"
    by (simp add: splitInvariant_def list_all_iff)
  moreover have "autoDetectSplits rnd asset config
      = Some (asset\<lparr>splitPoints := splits, segments := []\<rparr>)"
    by (simp add: autoDetectSplits_def assms(1,2) fs)
  ultimately show ?thesis
    using fs by blast
qed

lemma addSplitPoint_open:
  assumes "splitInvariant (duration asset) (splitPoints asset)"
    and "0 < (case time of None \<Rightarrow> currentTime | Some x \<Rightarrow> x)"
    and "(case time of None \<Rightarrow> currentTime | Some x \<Rightarrow> x) < duration asset"
  shows "splitInvariant (duration (addSplitPoint asset currentTime time))
           (splitPoints (addSplitPoint asset currentTime time))"
proof -
  define x where "x = (case time of None \<Rightarrow> currentTime | Some x \<Rightarrow> x)"
  have t: "max 0 (min (duration asset) x) = x"
    using assms(2,3) by (simp add: x_def)
  show ?thesis
  proof (cases "x \<in> set (splitPoints asset)")
    case True
    then have "addSplitPoint asset currentTime time = asset"
      by (simp add: addSplitPoint_def x_def[symmetric] t)
    with assms(1) show ?thesis by simp
  next
    case False
    then have eq: "addSplitPoint asset currentTime time
        = asset\<lparr>splitPoints := sort (splitPoints asset @ [x])\<rparr>"
      by (simp add: addSplitPoint_def x_def[symmetric] t)
    from assms(1) have "distinct (splitPoints asset)" "sorted (splitPoints asset)"
      by (simp_all add: splitInvariant_def strict_sorted_iff)
    with False have "sorted_wrt (<) (sort (splitPoints asset @ [x]))"
      by (simp add: strict_sorted_iff)
    moreover have "list_all (\<lambda>t. 0 < t \<and> t < duration asset) (sort (splitPoints asset @ [x]))"
      using assms by (auto simp: splitInvariant_def list_all_iff x_def)
    ultimately show ?thesis
      by (simp add: eq splitInvariant_def)
  qed
qed




text \<open>
  C8. On a split list that is strictly ascending with every time in the closed range
  \<open>[0, duration]\<close>, manual add and manual remove keep the list strictly ascending and in
  \<open>[0, duration]\<close>, and manual adjust leaves an ascending list in \<open>[0, duration]\<close>.
  Auto-detect leaves the asset as it is when no buffer is loaded; on a loaded buffer with a
  channel it replaces the list, in binary64 and for a sample rate from 11 Hz to \<open>2 ^ 20\<close>
  Hz, \<open>maxSegmentDuration \<ge> 2 ^ -30\<close> and \<open>duration + maxSegmentDuration + 2 \<le> 2 ^ 20\<close>,
  by a strictly ascending list with every time strictly inside \<open>(0, duration)\<close>. Remove
  also keeps the open range \<open>(0, duration)\<close>, and so does add when the requested time is
  strictly inside it.
\<close>

theorem splitList_invariant:
  assumes "splitInvariantClosed (duration asset) (splitPoints asset)" and "0 \<le> duration asset"
  shows
    "splitInvariantClosed (duration (addSplitPoint asset currentTime time))
       (splitPoints (addSplitPoint asset currentTime time)) \<and>
     splitInvariantClosed (duration (removeSplitPoint asset point))
       (splitPoints (removeSplitPoint asset point)) \<and>
     sorted (splitPoints (adjustSplitPoint rnd asset point delta)) \<and>
     list_all (\<lambda>t. 0 \<le> t \<and> t \<le> duration (adjustSplitPoint rnd asset point delta))
       (splitPoints (adjustSplitPoint rnd asset point delta)) \<and>
     (buffer asset = None \<longrightarrow> autoDetectSplits rnd asset config = Some asset) \<and>
     (\<forall>ab buf others.
        buffer asset = Some ab \<and> channelData ab = buf # others \<and> rounds rnd \<and>
        11 \<le> sampleRate ab \<and> sampleRate ab \<le> 2 ^ 20 \<and>
        1 / 2 ^ 30 \<le> maxSegmentDuration config \<and>
        duration asset + maxSegmentDuration config + 2 \<le> 2 ^ 20 \<longrightarrow>
        (\<exists>asset'. autoDetectSplits rnd asset config = Some asset' \<and>
           splitInvariant (duration asset') (splitPoints asset'))) \<and>
     (splitInvariant (duration asset) (splitPoints asset) \<longrightarrow>
        splitInvariant (duration (removeSplitPoint asset point))
          (splitPoints (removeSplitPoint asset point)) \<and>
        (0 < (case time of None \<Rightarrow> currentTime | Some x \<Rightarrow> x) \<and>
         (case time of None \<Rightarrow> currentTime | Some x \<Rightarrow> x) < duration asset \<longrightarrow>
           splitInvariant (duration (addSplitPoint asset currentTime time))
             (splitPoints (addSplitPoint asset currentTime time))))"
proof -
  have none: "autoDetectSplits rnd asset config = Some asset" if "buffer asset = None"
    using that by (simp add: autoDetectSplits_def)
  have auto: "\<exists>asset'. autoDetectSplits rnd asset config = Some asset' \<and>
        splitInvariant (duration asset') (splitPoints asset')"
    if "buffer asset = Some ab \<and> channelData ab = buf # others \<and> rounds rnd \<and>
        11 \<le> sampleRate ab \<and> sampleRate ab \<le> 2 ^ 20 \<and>
        1 / 2 ^ 30 \<le> maxSegmentDuration config \<and>
        duration asset + maxSegmentDuration config + 2 \<le> 2 ^ 20" for ab buf others
  proof -
    from that autoDetectSplits_result[of asset ab buf others rnd config] obtain newSplits where
      "autoDetectSplits rnd asset config = Some (asset\<lparr>splitPoints := newSplits, segments := []\<rparr>)"
      "splitInvariant (duration asset) newSplits"
      by blast
    then show ?thesis
      by (intro exI[of _ "asset\<lparr>splitPoints := newSplits, segments := []\<rparr>"]) simp
  qed
  have within: "list_all (\<lambda>t. 0 \<le> t \<and> t \<le> duration asset) (splitPoints asset)"
    using assms(1) by (simp add: splitInvariantClosed_def)
  from addSplitPoint_closed[OF assms(1,2)] removeSplitPoint_closed[OF assms(1)] none auto
    adjustSplitPoint_within[OF within assms(2)] removeSplitPoint_open addSplitPoint_open
  show ?thesis
    by blast
qed

text \<open>
  The theorem on an asset of 2.5 s of silence at 16 Hz with the split list \<open>[1]\<close>: a split
  added at 2 s, the split at 1 s moved by 0.25 s, and auto-detection with
  \<open>maxSegmentDuration = 1\<close>.
\<close>

theorem splitList_invariant_witness:
  "splitPoints (addSplitPoint
     \<lparr>asset_id = ''a'', asset_file = ''f'', name = ''n'', duration = 5 / 2, url = ''u'',
      buffer = Some \<lparr>sampleRate = 16, buf_length = 40, channelData = [replicate 40 (Num 0)]\<rparr>,
      splitPoints = [1], segments = []\<rparr> 2 None) = [1, 2] \<and>
   splitInvariantClosed (5 / 2) [1, 2] \<and>
   splitPoints (adjustSplitPoint roundLiteral
     \<lparr>asset_id = ''a'', asset_file = ''f'', name = ''n'', duration = 5 / 2, url = ''u'',
      buffer = Some \<lparr>sampleRate = 16, buf_length = 40, channelData = [replicate 40 (Num 0)]\<rparr>,
      splitPoints = [1], segments = []\<rparr> 1 (1 / 4)) = [5 / 4] \<and>
   sorted [5 / 4 :: real] \<and>
   (\<exists>asset'. autoDetectSplits roundLiteral
     \<lparr>asset_id = ''a'', asset_file = ''f'', name = ''n'', duration = 5 / 2, url = ''u'',
      buffer = Some \<lparr>sampleRate = 16, buf_length = 40, channelData = [replicate 40 (Num 0)]\<rparr>,
      splitPoints = [1], segments = []\<rparr> \<lparr>maxSegmentDuration = 1\<rparr> = Some asset' \<and>
      splitInvariant (duration asset') (splitPoints asset'))"
proof -
  let ?B = "\<lparr>sampleRate = 16, buf_length = 40, channelData = [replicate 40 (Num 0)]\<rparr>"
  let ?A = "\<lparr>asset_id = ''a'', asset_file = ''f'', name = ''n'', duration = 5 / 2, url = ''u'',
      buffer = Some ?B, splitPoints = [1], segments = []\<rparr>"
  let ?C = "\<lparr>maxSegmentDuration = 1\<rparr>"
  have h1: "splitInvariantClosed (duration ?A) (splitPoints ?A)"
    by (simp add: splitInvariantClosed_def)
  have h2: "0 \<le> duration ?A" by simp
  have h3: "buffer ?A = Some ?B \<and> channelData ?B = replicate 40 (Num 0) # [] \<and>
      rounds roundLiteral \<and> 11 \<le> sampleRate ?B \<and> sampleRate ?B \<le> 2 ^ 20 \<and>
      1 / 2 ^ 30 \<le> maxSegmentDuration ?C \<and> duration ?A + maxSegmentDuration ?C + 2 \<le> 2 ^ 20"
    using rounds_roundLiteral by simp
  have add: "splitPoints (addSplitPoint ?A 2 None) = [1, 2]"
    by (simp add: addSplitPoint_def)
  have adj: "splitPoints (adjustSplitPoint roundLiteral ?A 1 (1 / 4)) = [5 / 4]"
    by (simp add: adjustSplitPoint_def roundLiteral_def roundUp_def tenth64_def)
  note inst = splitList_invariant[OF h1 h2, of 2 None 1 roundLiteral "1 / 4" ?C]
  from inst have "splitInvariantClosed (duration (addSplitPoint ?A 2 None))
          (splitPoints (addSplitPoint ?A 2 None))"
    by blast
  moreover have "duration (addSplitPoint ?A 2 None) = 5 / 2"
    by (simp add: addSplitPoint_def)
  moreover from inst have "sorted (splitPoints (adjustSplitPoint roundLiteral ?A 1 (1 / 4)))"
    by blast
  moreover from inst h3 have "\<exists>asset'. autoDetectSplits roundLiteral ?A ?C = Some asset' \<and>
          splitInvariant (duration asset') (splitPoints asset')"
    by blast
  ultimately show ?thesis
    using add adj by simp
qed

text \<open>
  The claim as stated keeps every stored time strictly inside \<open>(0, duration)\<close>. Add clamps
  the time to the closed range, so a manual split at the playback position \<open>0\<close> stores
  \<open>0\<close>.
\<close>

theorem addSplitPoint_at_zero:
  "splitInvariant 3 [1] \<and>
   splitPoints (addSplitPoint
     \<lparr>asset_id = ''a'', asset_file = ''f'', name = ''n'', duration = 3, url = ''u'',
      buffer = None, splitPoints = [1], segments = []\<rparr> 0 None) = [0, 1] \<and>
   \<not> splitInvariant 3 [0, 1]"
  by (simp add: addSplitPoint_def splitInvariant_def)

section \<open>Properties of the waveform summary\<close>

lemma column_fold_window:
  "foldl (\<lambda>mm j. peakStep mm (at_index data (int (b + j)))) mm [0..<n] =
   foldl peakStep mm (take n (drop b data))"
proof (induction n)
  case 0
  then show ?case by simp
next
  case (Suc n)
  show ?case
  proof (cases "b + n < length data")
    case True
    then have "take (Suc n) (drop b data) = take n (drop b data) @ [data ! (b + n)]"
      by (simp add: take_Suc_conv_app_nth)
    moreover from True have "at_index data (int (b + n)) = data ! (b + n)"
      unfolding at_index_def by (simp only: nat_int of_nat_less_iff of_nat_0_le_iff) simp
    ultimately show ?thesis
      using Suc by simp
  next
    case False
    then have "take (Suc n) (drop b data) = take n (drop b data)"
      by simp
    moreover from False have "at_index data (int (b + n)) = NaN"
      by (simp add: at_index_def)
    ultimately show ?thesis
      using Suc by (simp add: peakStep_def)
  qed
qed

lemma columnPeak_window:
  "columnPeak data step i = foldl peakStep (1, - 1) (take step (drop (i * step) data))"
  unfolding columnPeak_def by (rule column_fold_window)

lemma fold_peakStep:
  assumes "list_all unitSample w"
  shows "fst (foldl peakStep (a, b) w) = Min (insert a (set (map sampleValue w))) \<and>
         snd (foldl peakStep (a, b) w) = Max (insert b (set (map sampleValue w)))"
  using assms
proof (induction w arbitrary: a b)
  case Nil
  then show ?case by simp
next
  case (Cons x w)
  from Cons.prems have ux: "unitSample x" and w: "list_all unitSample w"
    by simp_all
  from ux obtain d where x: "x = Num d"
    by (cases x) (auto simp: unitSample_def)
  have step: "peakStep (a, b) x = (min d a, max d b)"
    by (auto simp: peakStep_def x min_def max_def)
  let ?S = "set (map sampleValue w)"
  have mn: "Min (insert (min d a) ?S) = Min (insert a (insert d ?S))"
  proof (cases "?S = {}")
    case True
    then show ?thesis by (simp add: min.commute)
  next
    case False
    then show ?thesis by (simp add: min.commute min.left_commute)
  qed
  have mx: "Max (insert (max d b) ?S) = Max (insert b (insert d ?S))"
  proof (cases "?S = {}")
    case True
    then show ?thesis by (simp add: max.commute)
  next
    case False
    then show ?thesis by (simp add: max.commute max.left_commute)
  qed
  have f: "foldl peakStep (a, b) (x # w) = foldl peakStep (min d a, max d b) w"
    by (simp add: step)
  have sv: "set (map sampleValue (x # w)) = insert d ?S"
    by (simp add: x sampleValue_def)
  show ?case
    unfolding f sv mn[symmetric] mx[symmetric] by (rule Cons.IH[OF w])
qed

lemma assetWaveform_peaks:
  "channelData ab = data # others \<Longrightarrow> assetWaveform ab width = waveformPeaks data width"
  by (simp add: assetWaveform_def)

lemma segmentWaveform_peaks:
  "channelData parentBuffer = data # others \<Longrightarrow>
   segmentWaveform parentBuffer start end' width =
     waveformPeaks (subarray data \<lfloor>start * real (sampleRate parentBuffer)\<rfloor>
                      \<lfloor>end' * real (sampleRate parentBuffer)\<rfloor>) width"
  by (simp add: segmentWaveform_def Let_def)

lemma unitSample_subarray:
  "list_all unitSample data \<Longrightarrow> list_all unitSample (subarray data startIdx endIdx)"
  by (auto simp: subarray_def Let_def list_all_iff dest: in_set_takeD in_set_dropD)

text \<open>
  C9. With \<open>step = ceil (sampleCount / outputWidth)\<close> and samples in \<open>[-1, 1]\<close>, the
  summary has one pair per output column, and the pair of column \<open>i\<close> is the true minimum
  and maximum of the samples in the window \<open>[i * step, i * step + step)\<close> clipped to the
  end of the data; a column whose window holds no sample emits the initial pair
  \<open>(1, -1)\<close>.
\<close>

theorem waveformPeaks_columns:
  fixes data :: "number list" and width i :: nat
  assumes "list_all unitSample data" and "i < width"
  defines "step \<equiv> nat \<lceil>real (length data) / real width\<rceil>"
  shows "length (waveformPeaks data width) = width \<and>
         waveformPeaks data width ! i =
           (if columnWindow data step i = [] then (1, - 1)
            else (Min (set (columnWindow data step i)), Max (set (columnWindow data step i))))"
proof -
  let ?w = "take step (drop (i * step) data)"
  let ?V = "set (map sampleValue ?w)"
  have len: "length (waveformPeaks data width) = width"
    by (simp add: waveformPeaks_def)
  have nth: "waveformPeaks data width ! i = foldl peakStep (1, - 1) ?w"
    using assms(2) by (simp add: waveformPeaks_def step_def columnPeak_window)
  have unit: "list_all unitSample ?w"
    using assms(1) by (auto simp: list_all_iff dest: in_set_takeD in_set_dropD)
  from fold_peakStep[OF unit, of 1 "- 1"] have
    mn: "fst (foldl peakStep (1, - 1) ?w) = Min (insert 1 ?V)" and
    mx: "snd (foldl peakStep (1, - 1) ?w) = Max (insert (- 1) ?V)"
    by simp_all
  have bound: "- 1 \<le> v \<and> v \<le> 1" if "v \<in> ?V" for v
  proof -
    from that obtain x where x: "x \<in> set ?w" "v = sampleValue x" by auto
    from x(1) unit have "unitSample x" by (simp add: list_all_iff)
    then show ?thesis
      unfolding x(2) by (cases x) (simp_all add: unitSample_def sampleValue_def)
  qed
  show ?thesis
  proof (cases "?w = []")
    case True
    with nth len show ?thesis
      by (simp add: columnWindow_def)
  next
    case False
    then have ne: "?V \<noteq> {}" by simp
    have "Min ?V \<in> ?V" "Max ?V \<in> ?V"
      using ne by (simp_all del: set_map)
    then have "Min ?V \<le> 1" "- 1 \<le> Max ?V"
      using bound by blast+
    then have b: "min 1 (Min ?V) = Min ?V" "max (- 1) (Max ?V) = Max ?V"
      by (simp_all only: min_absorb2 max_absorb2)
    have fin: "finite ?V" by (rule finite_set)
    have "Min (insert 1 ?V) = Min ?V" "Max (insert (- 1) ?V) = Max ?V"
      unfolding Min_insert[OF fin ne] Max_insert[OF fin ne] by (rule b)+
    with mn mx have "foldl peakStep (1, - 1) ?w = (Min ?V, Max ?V)"
      by (simp add: prod_eq_iff)
    with nth len False show ?thesis
      by (simp add: columnWindow_def)
  qed
qed

text \<open>The theorem on three samples and two columns.\<close>

theorem waveformPeaks_columns_witness:
  "length (waveformPeaks [Num (1 / 2), Num (- (1 / 4)), Num 1] 2) = 2 \<and>
   columnWindow [Num (1 / 2), Num (- (1 / 4)), Num 1] 2 0 = [1 / 2, - (1 / 4)] \<and>
   waveformPeaks [Num (1 / 2), Num (- (1 / 4)), Num 1] 2 ! 0 = (- (1 / 4), 1 / 2)"
proof -
  let ?d = "[Num (1 / 2), Num (- (1 / 4)), Num 1]"
  have h1: "list_all unitSample ?d" by (simp add: unitSample_def)
  have h2: "(0 :: nat) < 2" by simp
  have st: "nat \<lceil>real (length ?d) / real (2 :: nat)\<rceil> = 2"
    by (simp add: ceiling_eq_iff)
  have w: "columnWindow ?d 2 0 = [1 / 2, - (1 / 4)]"
    by (simp add: columnWindow_def sampleValue_def numeral_2_eq_2)
  from waveformPeaks_columns[OF h1 h2, unfolded st w] w show ?thesis
    by simp
qed

text \<open>
  The claim as stated has \<open>{0, 0}\<close> for a column with no sample. One sample drawn on two
  columns leaves the second column empty, and its pair is \<open>(1, -1)\<close>.
\<close>

theorem waveformPeaks_empty_column:
  "columnWindow [Num (1 / 2)] 1 1 = [] \<and>
   waveformPeaks [Num (1 / 2)] 2 = [(1 / 2, 1 / 2), (1, - 1)] \<and>
   (1, - 1) \<noteq> (0 :: real, 0 :: real)"
proof -
  have u: "[0..<2] = [0, Suc 0]"
    by (simp add: numeral_2_eq_2)
  have "\<lceil>(1 :: real) / 2\<rceil> = 1"
    by (rule ceiling_unique) simp_all
  then have st: "nat \<lceil>real (length [Num (1 / 2)]) / real (2 :: nat)\<rceil> = 1"
    by simp
  have "waveformPeaks [Num (1 / 2)] 2 = [(1 / 2, 1 / 2), (1, - 1)]"
    unfolding waveformPeaks_def Let_def st
    by (simp add: u columnPeak_def peakStep_def at_index_def)
  then show ?thesis
    by (simp add: columnWindow_def)
qed

section \<open>Properties of the frame brightness prober\<close>

lemma findGoodFrame_empty:
  "seek video time = [] \<Longrightarrow> findGoodFrame rnd video toBlob time = Some NeverSettles"
  by (subst findGoodFrame.simps) simp

lemma findGoodFrame_accept:
  "seek video time \<noteq> [] \<Longrightarrow> \<not> (avgBrightness rnd (seek video time) < 10 \<and> 1 / 2 < time) \<Longrightarrow>
   findGoodFrame rnd video toBlob time =
     Some (Resolved (map_option (\<lambda>b. (b, time)) (toBlob (seek video time))))"
  by (subst findGoodFrame.simps) (auto simp: Let_def)

lemma findGoodFrame_retry:
  "seek video time \<noteq> [] \<Longrightarrow> avgBrightness rnd (seek video time) < 10 \<Longrightarrow> 1 / 2 < time \<Longrightarrow>
   findGoodFrame rnd video toBlob time =
     findGoodFrame rnd video toBlob (rnd (time - rnd (1 / 10)))"
  by (subst findGoodFrame.simps) (simp add: Let_def)

lemma probeTime_shift:
  "probeTime rnd time (Suc k) = probeTime rnd (rnd (time - rnd (1 / 10))) k"
  by (induction k) simp_all

text \<open>A retry from a time above \<open>0.5\<close> and at most \<open>2 ^ 20\<close> lowers the time by \<open>0.1\<close> up
  to rounding.\<close>

lemma backOff_near:
  assumes "rounds rnd" and "1 / 2 < t" and "t \<le> 2 ^ 20"
  shows "\<bar>rnd (t - rnd (1 / 10)) - (t - 1 / 10)\<bar> \<le> 1 / 2 ^ 32"
proof -
  define e :: real where "e = 1 / 2 ^ 53"
  define d :: real where "d = 1 / 2 ^ 33"
  have e: "0 < e" "e < 1 / 100" "0 < d" "d + e \<le> 1 / 2 ^ 32"
    by (simp_all add: e_def d_def)
  have t: "1 / 10 - e \<le> rnd (1 / 10)" "rnd (1 / 10) \<le> 1 / 10 + e"
    unfolding e_def by (rule rounds_unit[OF assms(1)]; simp)+
  have "- (2 ^ 20) \<le> t - rnd (1 / 10)" "t - rnd (1 / 10) \<le> 2 ^ 20"
    using t e assms(2,3) by simp_all
  then have "\<bar>t - rnd (1 / 10)\<bar> \<le> 2 ^ 20"
    by (simp add: abs_le_iff)
  from rounds_time[OF assms(1) this]
  have "t - rnd (1 / 10) - d \<le> rnd (t - rnd (1 / 10))"
    "rnd (t - rnd (1 / 10)) \<le> t - rnd (1 / 10) + d"
    by (simp_all add: d_def)
  with t have "\<bar>rnd (t - rnd (1 / 10)) - (t - 1 / 10)\<bar> \<le> d + e"
    by linarith
  with e(4) show ?thesis
    by linarith
qed

lemma findGoodFrame_search:
  assumes "rounds rnd" and "\<forall>t. frameAt video t \<noteq> []"
  shows "time \<le> 2 ^ 20 \<Longrightarrow> time - 1 / 2 \<le> real n / 20 \<Longrightarrow>
    \<exists>k. findGoodFrame rnd video toBlob time =
      Some (Resolved (map_option (\<lambda>b. (b, probeTime rnd time k))
              (toBlob (seek video (probeTime rnd time k))))) \<and>
    (10 \<le> avgBrightness rnd (seek video (probeTime rnd time k)) \<or>
     probeTime rnd time k \<le> 1 / 2) \<and>
    (\<forall>j < k. avgBrightness rnd (seek video (probeTime rnd time j)) < 10 \<and>
       1 / 2 < probeTime rnd time j)"
proof (induction n arbitrary: time)
  case 0
  have ne: "seek video time \<noteq> []"
    using assms(2) by (simp add: seek_def)
  from 0 have "\<not> (avgBrightness rnd (seek video time) < 10 \<and> 1 / 2 < time)"
    by simp
  from findGoodFrame_accept[OF ne this, of toBlob] this show ?case
    by (intro exI[of _ 0]) auto
next
  case (Suc n)
  have ne: "seek video t \<noteq> []" for t
    using assms(2) by (simp add: seek_def)
  show ?case
  proof (cases "avgBrightness rnd (seek video time) < 10 \<and> 1 / 2 < time")
    case False
    from findGoodFrame_accept[OF ne False, of toBlob] False show ?thesis
      by (intro exI[of _ 0]) auto
  next
    case True
    define time' where "time' = rnd (time - rnd (1 / 10))"
    from backOff_near[OF assms(1) _ Suc.prems(1)] True
    have near: "\<bar>time' - (time - 1 / 10)\<bar> \<le> 1 / 2 ^ 32"
      by (simp add: time'_def)
    have small: "(1 :: real) / 2 ^ 32 \<le> 1 / 20"
      by simp
    from near small have lower: "time' \<le> time - 1 / 20"
      by linarith
    with Suc.prems have "time' \<le> 2 ^ 20" "time' - 1 / 2 \<le> real n / 20"
      by (simp_all add: field_simps)
    from Suc.IH[OF this] obtain k where k:
      "findGoodFrame rnd video toBlob time' =
        Some (Resolved (map_option (\<lambda>b. (b, probeTime rnd time' k))
                (toBlob (seek video (probeTime rnd time' k)))))"
      "10 \<le> avgBrightness rnd (seek video (probeTime rnd time' k)) \<or>
        probeTime rnd time' k \<le> 1 / 2"
      "\<forall>j < k. avgBrightness rnd (seek video (probeTime rnd time' j)) < 10 \<and>
        1 / 2 < probeTime rnd time' j"
      by blast
    have shift: "probeTime rnd time' j = probeTime rnd time (Suc j)" for j
      unfolding time'_def by (rule probeTime_shift[symmetric])
    have earlier: "avgBrightness rnd (seek video (probeTime rnd time j)) < 10 \<and>
        1 / 2 < probeTime rnd time j"
      if "j < Suc k" for j
    proof (cases j)
      case 0
      with True show ?thesis by simp
    next
      case (Suc j')
      with that have "j' < k" by simp
      with k(3) have "avgBrightness rnd (seek video (probeTime rnd time' j')) < 10 \<and>
        1 / 2 < probeTime rnd time' j'"
        by blast
      then show ?thesis
        unfolding shift Suc .
    qed
    have "findGoodFrame rnd video toBlob time = findGoodFrame rnd video toBlob time'"
      unfolding time'_def using True by (intro findGoodFrame_retry[OF ne]) simp_all
    with k(1,2) earlier show ?thesis
      unfolding shift by (intro exI[of _ "Suc k"]) simp
  qed
qed

text \<open>The retry times stay within rounding of the grid \<open>time - j / 10\<close>.\<close>

lemma probeTime_grid:
  assumes "rounds rnd" and "time \<le> 2 ^ 20"
  shows "\<forall>i < j. 1 / 2 < probeTime rnd time i \<Longrightarrow>
    \<bar>probeTime rnd time j - (time - real j / 10)\<bar> \<le> real j / 2 ^ 32"
proof (induction j)
  case 0
  then show ?case by simp
next
  case (Suc j)
  then have IH: "\<bar>probeTime rnd time j - (time - real j / 10)\<bar> \<le> real j / 2 ^ 32"
    by simp
  from Suc.prems have above: "1 / 2 < probeTime rnd time j"
    by simp
  have "probeTime rnd time j \<le> time - real j / 10 + real j / 2 ^ 32"
    using IH by linarith
  also have "\<dots> \<le> time"
    by (simp add: field_simps)
  finally have "probeTime rnd time j \<le> 2 ^ 20"
    using assms(2) by simp
  from backOff_near[OF assms(1) above this]
  have "\<bar>probeTime rnd time (Suc j) - (probeTime rnd time j - 1 / 10)\<bar> \<le> 1 / 2 ^ 32"
    by simp
  with IH have "\<bar>probeTime rnd time (Suc j) - (time - real j / 10 - 1 / 10)\<bar>
      \<le> real j / 2 ^ 32 + 1 / 2 ^ 32"
    by linarith
  moreover have "real (Suc j) / 10 = real j / 10 + 1 / 10"
    "real (Suc j) / 2 ^ 32 = real j / 2 ^ 32 + 1 / 2 ^ 32"
    by (simp_all add: add_divide_distrib)
  ultimately show ?case
    by (simp only: diff_diff_eq)
qed

text \<open>The computed average is within \<open>2 ^ -19\<close> of the mean of the lumas on a frame of
  at most \<open>2 ^ 24\<close> pixels.\<close>

lemma luma_range: "0 \<le> luma p \<and> luma p \<le> 255"
proof -
  have b: "real (unat w) \<le> 255" for w :: byte
  proof -
    have "unat w < 256"
      using unsigned_less[of w, where 'a = nat] by simp
    then have "unat w \<le> 255"
      by simp
    then have "real (unat w) \<le> real 255"
      by (simp only: of_nat_le_iff)
    then show ?thesis
      by (simp del: of_nat_unat)
  qed
  have "0 \<le> real (unat (red p)) + real (unat (green p)) + real (unat (blue p))"
    by (simp del: of_nat_unat)
  moreover have "real (unat (red p)) + real (unat (green p)) + real (unat (blue p)) \<le> 765"
    using b[of "red p"] b[of "green p"] b[of "blue p"] by linarith
  moreover have "0 \<le> s / 3 \<and> s / 3 \<le> 255" if "0 \<le> s" "s \<le> 765" for s :: real
    using that by simp
  ultimately show ?thesis
    unfolding luma_def by blast
qed

lemma brightness_step:
  assumes "rounds rnd" and "\<bar>a - A\<bar> \<le> real m / 2 ^ 20" and "0 \<le> A" and "A \<le> 255 * real m"
    and "Suc m \<le> 2 ^ 24"
  shows "\<bar>rnd (a + rnd (luma p)) - (A + luma p)\<bar> \<le> real (Suc m) / 2 ^ 20"
proof -
  define d :: real where "d = 1 / 2 ^ 45"
  define g :: real where "g = 1 / 2 ^ 21"
  define u :: real where "u = 1 / 2 ^ 20"
  define x where "x = real m / 2 ^ 20"
  have dg: "0 < d" "d + g \<le> u" "d \<le> 1 / 2"
    by (simp_all add: d_def g_def u_def)
  have x: "0 \<le> x" "x \<le> real m" "real (Suc m) / 2 ^ 20 = x + u"
    by (simp_all add: x_def u_def field_simps)
  from luma_range[of p] have l: "0 \<le> luma p" "luma p \<le> 255"
    by simp_all
  then have "\<bar>luma p\<bar> \<le> 2 ^ 8"
    by simp
  from rounds_within[OF assms(1) _ this]
  have l': "luma p - d \<le> rnd (luma p)" "rnd (luma p) \<le> luma p + d"
    by (simp_all add: d_def)
  have "real (Suc m) \<le> real (2 ^ 24)"
    using assms(5) by (simp only: of_nat_le_iff)
  then have m: "real m + 1 \<le> 16777216"
    by simp
  have ax: "\<bar>a - A\<bar> \<le> x"
    using assms(2) by (simp add: x_def)
  have a: "A - x \<le> a" "a \<le> A + x"
    using ax by linarith+
  have "- 256 * real m - 256 \<le> a + rnd (luma p)"
    using a(1) assms(3) l(1) l'(1) dg(3) x(1,2) by linarith
  moreover have "a + rnd (luma p) \<le> 256 * real m + 256"
    using a(2) assms(4) l(2) l'(2) dg(3) x(1,2) by linarith
  ultimately have "\<bar>a + rnd (luma p)\<bar> \<le> 4294967296"
    using m by linarith
  then have "\<bar>a + rnd (luma p)\<bar> \<le> 2 ^ 32"
    by simp
  from rounds_within[OF assms(1) _ this]
  have "a + rnd (luma p) - g \<le> rnd (a + rnd (luma p))"
    "rnd (a + rnd (luma p)) \<le> a + rnd (luma p) + g"
    by (simp_all add: g_def)
  with ax l' dg have "\<bar>rnd (a + rnd (luma p)) - (A + luma p)\<bar> \<le> x + u"
    by linarith
  then show ?thesis
    unfolding x(3) .
qed

lemma brightness_fold:
  assumes "rounds rnd"
  shows "\<bar>a - A\<bar> \<le> real m / 2 ^ 20 \<Longrightarrow> 0 \<le> A \<Longrightarrow> A \<le> 255 * real m \<Longrightarrow>
    m + length ps \<le> 2 ^ 24 \<Longrightarrow>
    \<bar>foldl (\<lambda>total p. rnd (total + rnd (luma p))) a ps - (A + (\<Sum>p\<leftarrow>ps. luma p))\<bar>
      \<le> real (m + length ps) / 2 ^ 20"
proof (induction ps arbitrary: a A m)
  case Nil
  then show ?case by simp
next
  case (Cons p ps)
  from Cons.prems(4) have m: "Suc m \<le> 2 ^ 24" "Suc m + length ps \<le> 2 ^ 24"
    by simp_all
  from luma_range[of p] have l: "0 \<le> luma p" "luma p \<le> 255"
    by simp_all
  have s: "\<bar>rnd (a + rnd (luma p)) - (A + luma p)\<bar> \<le> real (Suc m) / 2 ^ 20"
    by (rule brightness_step[OF assms Cons.prems(1,2,3) m(1)])
  have "0 \<le> A + luma p" "A + luma p \<le> 255 * real (Suc m)"
    using Cons.prems(2,3) l by (simp_all add: algebra_simps)
  from Cons.IH[OF s this m(2)] show ?case
    by (simp add: algebra_simps)
qed

lemma avgBrightness_near:
  assumes "rounds rnd" and "imageData \<noteq> []" and "length imageData \<le> 2 ^ 24"
  shows "\<bar>avgBrightness rnd imageData - (\<Sum>p\<leftarrow>imageData. luma p) / real (length imageData)\<bar>
    \<le> 1 / 2 ^ 19"
proof -
  define n where "n = real (length imageData)"
  define S where "S = (\<Sum>p\<leftarrow>imageData. luma p)"
  define T where "T = totalBrightness rnd imageData"
  have n: "1 \<le> n"
    using assms(2) by (cases imageData) (simp_all add: n_def)
  have tb: "T = foldl (\<lambda>total p. rnd (total + rnd (luma p))) 0 imageData"
    by (simp add: T_def totalBrightness_def luma_def)
  from brightness_fold[OF assms(1), of 0 0 0 imageData] assms(3)
  have near: "\<bar>T - S\<bar> \<le> n / 2 ^ 20"
    by (simp add: tb S_def n_def)
  have "S \<le> (\<Sum>p\<leftarrow>imageData. 255)"
    unfolding S_def using luma_range by (intro sum_list_mono) simp
  then have Sup: "S \<le> 255 * n"
    by (simp add: sum_list_triv n_def)
  have "0 \<le> S"
    unfolding S_def using luma_range by (intro sum_list_nonneg) auto
  have q: "\<bar>T / n - S / n\<bar> \<le> 1 / 2 ^ 20"
  proof -
    have "\<bar>T / n - S / n\<bar> = \<bar>T - S\<bar> / n"
      using n by (simp add: diff_divide_distrib[symmetric])
    also have "\<dots> \<le> (n / 2 ^ 20) / n"
      using near n by (intro divide_right_mono) simp_all
    also have "\<dots> = 1 / 2 ^ 20"
      using n by simp
    finally show ?thesis .
  qed
  have "S / n \<le> 255"
    using Sup n by (simp add: field_simps)
  moreover have "0 \<le> S / n"
    using \<open>0 \<le> S\<close> n by simp
  moreover have "(1 :: real) / 2 ^ 20 \<le> 1"
    by simp
  ultimately have "\<bar>T / n\<bar> \<le> 256"
    using q by linarith
  then have "\<bar>T / n\<bar> \<le> 2 ^ 8"
    by simp
  from rounds_within[OF assms(1) _ this]
  have "T / n - 1 / 2 ^ 45 \<le> rnd (T / n)" "rnd (T / n) \<le> T / n + 1 / 2 ^ 45"
    by simp_all
  moreover have "(1 :: real) / 2 ^ 20 + 1 / 2 ^ 45 \<le> 1 / 2 ^ 19"
    by simp
  ultimately have "\<bar>rnd (T / n) - S / n\<bar> \<le> 1 / 2 ^ 19"
    using q by linarith
  then show ?thesis
    by (simp add: avgBrightness_def T_def S_def n_def)
qed

text \<open>
  C6. On a video whose frames have at least one pixel, probed from a time of at most
  \<open>2 ^ 20\<close> seconds, the prober terminates with a resolved promise. The time it returns is
  the time after some number \<open>k\<close> of retries, each retry being \<open>time - 0.1\<close> in binary64;
  that frame satisfies \<open>avgBrightness \<ge> 10\<close> or \<open>t \<le> 0.5\<close>, and each of the \<open>k\<close>
  frames probed before it has \<open>avgBrightness < 10\<close> and \<open>t > 0.5\<close>. The retry times are
  within \<open>j / 2 ^ 32\<close> of the grid \<open>time - j / 10\<close>. The average brightness is the
  binary64 value of the sum of the lumas divided by the number of pixels, which is within
  \<open>2 ^ -19\<close> of their mean on a frame of at most \<open>2 ^ 24\<close> pixels.
\<close>

theorem findGoodFrame_terminates:
  assumes "rounds rnd" and "\<forall>t. frameAt video t \<noteq> []" and "time \<le> 2 ^ 20"
  shows "\<exists>k.
    findGoodFrame rnd video toBlob time =
      Some (Resolved (map_option (\<lambda>b. (b, probeTime rnd time k))
              (toBlob (seek video (probeTime rnd time k))))) \<and>
    (10 \<le> avgBrightness rnd (seek video (probeTime rnd time k)) \<or>
     probeTime rnd time k \<le> 1 / 2) \<and>
    (\<forall>j < k. avgBrightness rnd (seek video (probeTime rnd time j)) < 10 \<and>
       1 / 2 < probeTime rnd time j) \<and>
    (\<forall>j \<le> k. \<bar>probeTime rnd time j - (time - real j / 10)\<bar> \<le> real j / 2 ^ 32) \<and>
    (\<forall>j \<le> k. length (seek video (probeTime rnd time j)) \<le> 2 ^ 24 \<longrightarrow>
       \<bar>avgBrightness rnd (seek video (probeTime rnd time j)) -
        (\<Sum>p\<leftarrow>seek video (probeTime rnd time j). luma p) /
          real (length (seek video (probeTime rnd time j)))\<bar> \<le> 1 / 2 ^ 19)"
proof -
  define n where "n = nat \<lceil>(time - 1 / 2) * 20\<rceil>"
  have "(time - 1 / 2) * 20 \<le> real n"
    unfolding n_def by linarith
  then have "time - 1 / 2 \<le> real n / 20"
    by simp
  from findGoodFrame_search[OF assms(1,2,3) this, of toBlob] obtain k where k:
    "findGoodFrame rnd video toBlob time =
      Some (Resolved (map_option (\<lambda>b. (b, probeTime rnd time k))
              (toBlob (seek video (probeTime rnd time k)))))"
    "10 \<le> avgBrightness rnd (seek video (probeTime rnd time k)) \<or> probeTime rnd time k \<le> 1 / 2"
    "\<forall>j < k. avgBrightness rnd (seek video (probeTime rnd time j)) < 10 \<and>
       1 / 2 < probeTime rnd time j"
    by blast
  have grid: "\<bar>probeTime rnd time j - (time - real j / 10)\<bar> \<le> real j / 2 ^ 32" if "j \<le> k" for j
  proof (rule probeTime_grid[OF assms(1,3)])
    show "\<forall>i < j. 1 / 2 < probeTime rnd time i"
      using k(3) that by auto
  qed
  have avg: "\<bar>avgBrightness rnd (seek video t) -
        (\<Sum>p\<leftarrow>seek video t. luma p) / real (length (seek video t))\<bar> \<le> 1 / 2 ^ 19"
    if "length (seek video t) \<le> 2 ^ 24" for t
  proof (rule avgBrightness_near[OF assms(1) _ that])
    show "seek video t \<noteq> []"
      using assms(2) by (simp add: seek_def)
  qed
  from k grid avg show ?thesis
    by (intro exI[of _ k]) blast
qed

lemma rounds_roundBackOff: "rounds roundBackOff"
  unfolding roundBackOff_def
  by (intro rounds_roundUp rounds_roundLiteral)
    (simp_all add: backOff64_def roundUp_def roundLiteral_def tenth64_def)

lemma roundBackOff_step:
  "roundBackOff (1 / 10) = tenth64"
  "roundBackOff 0 = 0"
  "roundBackOff (backOff64 ! 0 - tenth64) = backOff64 ! 1"
  "roundBackOff (backOff64 ! 1 - tenth64) = backOff64 ! 2"
  "roundBackOff (backOff64 ! 2 - tenth64) = backOff64 ! 3"
  "roundBackOff (backOff64 ! 3 - tenth64) = backOff64 ! 4"
  "roundBackOff (backOff64 ! 4 - tenth64) = backOff64 ! 5"
  "roundBackOff (backOff64 ! 5 - tenth64) = backOff64 ! 6"
  by (simp_all add: roundBackOff_def backOff64_def roundUp_def roundLiteral_def tenth64_def)

lemma probeTime_backOff64:
  "probeTime roundBackOff 1 0 = backOff64 ! 0"
  "probeTime roundBackOff 1 1 = backOff64 ! 1"
  "probeTime roundBackOff 1 2 = backOff64 ! 2"
  "probeTime roundBackOff 1 3 = backOff64 ! 3"
  "probeTime roundBackOff 1 4 = backOff64 ! 4"
  "probeTime roundBackOff 1 5 = backOff64 ! 5"
  "probeTime roundBackOff 1 6 = backOff64 ! 6"
proof -
  have step: "probeTime roundBackOff 1 (Suc i) = w"
    if "probeTime roundBackOff 1 i = v" "roundBackOff (v - tenth64) = w" for i v w
    using that by (simp add: roundBackOff_step(1))
  show t0: "probeTime roundBackOff 1 0 = backOff64 ! 0"
    by (simp add: backOff64_def)
  have "probeTime roundBackOff 1 (Suc 0) = backOff64 ! 1"
    by (rule step[OF t0 roundBackOff_step(3)])
  then show t1: "probeTime roundBackOff 1 1 = backOff64 ! 1"
    by simp
  have "probeTime roundBackOff 1 (Suc 1) = backOff64 ! 2"
    by (rule step[OF t1 roundBackOff_step(4)])
  then show t2: "probeTime roundBackOff 1 2 = backOff64 ! 2"
    by (simp only: Suc_1)
  have "probeTime roundBackOff 1 (Suc 2) = backOff64 ! 3"
    by (rule step[OF t2 roundBackOff_step(5)])
  then show t3: "probeTime roundBackOff 1 3 = backOff64 ! 3"
    by (simp only: Suc_numeral semiring_norm)
  have "probeTime roundBackOff 1 (Suc 3) = backOff64 ! 4"
    by (rule step[OF t3 roundBackOff_step(6)])
  then show t4: "probeTime roundBackOff 1 4 = backOff64 ! 4"
    by (simp only: Suc_numeral semiring_norm)
  have "probeTime roundBackOff 1 (Suc 4) = backOff64 ! 5"
    by (rule step[OF t4 roundBackOff_step(7)])
  then show t5: "probeTime roundBackOff 1 5 = backOff64 ! 5"
    by (simp only: Suc_numeral semiring_norm)
  have "probeTime roundBackOff 1 (Suc 5) = backOff64 ! 6"
    by (rule step[OF t5 roundBackOff_step(8)])
  then show "probeTime roundBackOff 1 6 = backOff64 ! 6"
    by (simp only: Suc_numeral semiring_norm)
qed

text \<open>
  The theorem on a clip that is black throughout, probed from 1 s: the retries reach
  \<open>0.5000000000000001\<close>, which is still above \<open>0.5\<close>, and the frame at
  \<open>0.40000000000000013\<close>, the sixth retry, is accepted.
\<close>

theorem findGoodFrame_terminates_witness:
  "findGoodFrame roundBackOff
     \<lparr>video_duration = 2, frameAt = (\<lambda>t. [\<lparr>red = 0, green = 0, blue = 0, alpha = 255\<rparr>])\<rparr>
     (\<lambda>imageData. Some [1]) 1
   = Some (Resolved (Some ([1], 1801439850948199 / 4503599627370496))) \<and>
   probeTime roundBackOff 1 5 = 4503599627370497 / 9007199254740992 \<and>
   probeTime roundBackOff 1 6 = 1801439850948199 / 4503599627370496"
proof -
  let ?black = "\<lparr>red = 0, green = 0, blue = 0, alpha = 255\<rparr>"
  let ?V = "\<lparr>video_duration = 2, frameAt = (\<lambda>t. [?black])\<rparr>"
  let ?enc = "\<lambda>imageData :: pixel list. Some [1 :: byte]"
  have h2: "\<forall>t. frameAt ?V t \<noteq> []" by simp
  have h3: "(1 :: real) \<le> 2 ^ 20" by simp
  from findGoodFrame_terminates[OF rounds_roundBackOff h2 h3, of ?enc] obtain k where
    k: "findGoodFrame roundBackOff ?V ?enc 1 =
          Some (Resolved (Some ([1], probeTime roundBackOff 1 k)))"
      "10 \<le> avgBrightness roundBackOff (seek ?V (probeTime roundBackOff 1 k)) \<or>
        probeTime roundBackOff 1 k \<le> 1 / 2"
      "\<forall>j < k. 1 / 2 < probeTime roundBackOff 1 j"
    by auto
  have dark: "avgBrightness roundBackOff (seek ?V t) = 0" for t
    by (simp add: seek_def avgBrightness_def totalBrightness_def roundBackOff_step(2))
  have v: "backOff64 ! 0 = 1" "backOff64 ! 1 = 8106479329266893 / 9007199254740992"
    "backOff64 ! 2 = 3602879701896397 / 4503599627370496"
    "backOff64 ! 3 = 6305039478318695 / 9007199254740992"
    "backOff64 ! 4 = 1351079888211149 / 2251799813685248"
    "backOff64 ! 5 = 4503599627370497 / 9007199254740992"
    "backOff64 ! 6 = 1801439850948199 / 4503599627370496"
    by (simp_all add: backOff64_def)
  note times = probeTime_backOff64[unfolded v]
  have "k = 6"
  proof (rule ccontr)
    assume "k \<noteq> 6"
    then consider "k = 0" | "k = 1" | "k = 2" | "k = 3" | "k = 4" | "k = 5" | "6 < k"
      by linarith
    then show False
    proof cases
      case 7
      with k(3) have "1 / 2 < probeTime roundBackOff 1 6" by blast
      then show False unfolding times by simp
    qed (use k(2) dark times in simp_all)
  qed
  with k(1) times show ?thesis
    by simp
qed

text \<open>
  The claim as stated covers every video of finite duration. A file with no video track
  gives a canvas of no pixel: \<open>getImageData\<close> raises inside the \<open>seeked\<close> handler and the
  promise of the prober is never settled, so the extraction never returns.
\<close>

theorem findGoodFrame_no_pixel:
  "findGoodFrame (\<lambda>y. y) \<lparr>video_duration = 1, frameAt = (\<lambda>t. [])\<rparr> (\<lambda>imageData. Some [1]) 1
     = Some NeverSettles \<and>
   extractLastFrame (\<lambda>y. y) \<lparr>video_duration = 1, frameAt = (\<lambda>t. [])\<rparr> (\<lambda>imageData. Some [1])
     = Some NeverSettles"
  by (simp add: extractLastFrame_def findGoodFrame_empty seek_def)

end
